theory Spec2Isabelle
  imports Complex_Main "HOL-Library.Word" "HOL-Library.Monad_Syntax"
begin

unbundle bit_operations_syntax

section \<open>Data model\<close>

subsection \<open>Edge weights\<close>

text \<open>
  \<^verbatim>\<open>EdgeWeight\<close> is a C++ floating-point type (the source compares it with \<^verbatim>\<open>0.0\<close>, takes
  \<^verbatim>\<open>std::max\<close> with \<^verbatim>\<open>0.0\<close> and tests \<^verbatim>\<open>std::isnan\<close>). Its values are embedded as the
  IEEE value classes: not-a-number, the two infinities, and the finite values, the latter
  idealised as reals (rounding and overflow of finite sums are not modelled). Comparison and
  addition follow IEEE: every comparison with \<open>NaN\<close> is false, and the sum of the two
  opposite infinities is \<open>NaN\<close>.
\<close>

datatype EdgeWeight = NaN | NInf | Fin real | PInf

instantiation EdgeWeight :: "{plus, uminus, ord}"
begin

fun plus_EdgeWeight :: "EdgeWeight \<Rightarrow> EdgeWeight \<Rightarrow> EdgeWeight" where
  "plus_EdgeWeight NaN b = NaN"
| "plus_EdgeWeight a NaN = NaN"
| "plus_EdgeWeight NInf PInf = NaN"
| "plus_EdgeWeight PInf NInf = NaN"
| "plus_EdgeWeight NInf b = NInf"
| "plus_EdgeWeight a NInf = NInf"
| "plus_EdgeWeight PInf b = PInf"
| "plus_EdgeWeight a PInf = PInf"
| "plus_EdgeWeight (Fin x) (Fin y) = Fin (x + y)"

fun uminus_EdgeWeight :: "EdgeWeight \<Rightarrow> EdgeWeight" where
  "uminus_EdgeWeight NaN = NaN"
| "uminus_EdgeWeight NInf = PInf"
| "uminus_EdgeWeight PInf = NInf"
| "uminus_EdgeWeight (Fin x) = Fin (- x)"

fun less_EdgeWeight :: "EdgeWeight \<Rightarrow> EdgeWeight \<Rightarrow> bool" where
  "less_EdgeWeight NaN b = False"
| "less_EdgeWeight a NaN = False"
| "less_EdgeWeight a NInf = False"
| "less_EdgeWeight NInf b = True"
| "less_EdgeWeight PInf b = False"
| "less_EdgeWeight (Fin x) PInf = True"
| "less_EdgeWeight (Fin x) (Fin y) = (x < y)"

definition less_eq_EdgeWeight :: "EdgeWeight \<Rightarrow> EdgeWeight \<Rightarrow> bool" where
  "less_eq_EdgeWeight a b = (a < b \<or> (a = b \<and> a \<noteq> NaN))"

instance ..

end

text \<open>\<^verbatim>\<open>std::max(a, b)\<close> is \<^verbatim>\<open>(a < b) ? b : a\<close>.\<close>

definition std_max :: "EdgeWeight \<Rightarrow> EdgeWeight \<Rightarrow> EdgeWeight" where
  "std_max a b = (if a < b then b else a)"

text \<open>
  Modelled from the spec: the constants \<^verbatim>\<open>DynamicSparseGraph::Forbidden\<close> and
  \<^verbatim>\<open>DynamicSparseGraph::Permanent\<close> are declared outside the source at hand. The spec
  calls them sentinel weights and says of \<^verbatim>\<open>Forbidden\<close> that it "is the minimum possible
  value"; they are taken as the negative and the positive infinity.
\<close>

definition Forbidden :: EdgeWeight where
  "Forbidden = NInf"

definition Permanent :: EdgeWeight where
  "Permanent = PInf"

subsection \<open>Nodes, edges and the graph adapter\<close>

type_synonym NodeId = nat
type_synonym EdgeId = nat
type_synonym RankId = nat

text \<open>
  Modelled from the spec: \<^verbatim>\<open>DynamicSparseGraph::Edge\<close> and the constant
  \<^verbatim>\<open>DynamicSparseGraph::InvalidEdge\<close> are declared outside the source at hand. An edge
  is built from two nodes (\<^verbatim>\<open>Edge uv(u,v)\<close>) and has the fields \<^verbatim>\<open>u\<close> and \<^verbatim>\<open>v\<close>;
  \<^verbatim>\<open>InvalidEdge\<close>, the spec's explicit "no edge" result, is a value of the same type that
  is no edge between two nodes.
\<close>

datatype Edge = Edge NodeId NodeId | InvalidEdge

text \<open>
  The graph (\<^verbatim>\<open>StaticSparseGraph\<close>) is an external collaborator; the engine only calls
  the member functions below, which are taken as parameters. \<open>edgeId\<close> is \<^verbatim>\<open>Edge::id()\<close>;
  \<open>findIndexId\<close> and \<open>findIndex\<close> are the overloads of \<^verbatim>\<open>findIndex\<close> on an edge id and on
  an edge; \<open>getWeightRank\<close> and \<open>getWeight\<close> are the overloads of \<^verbatim>\<open>getWeight\<close> on a rank
  and on an edge.
\<close>

record StaticSparseGraph =
  numNodes :: nat
  numEdges :: nat
  getNonZeroNeighbours :: "NodeId \<Rightarrow> NodeId list"
  edgeId :: "Edge \<Rightarrow> EdgeId"
  findIndexId :: "EdgeId \<Rightarrow> RankId"
  findIndex :: "Edge \<Rightarrow> RankId"
  getWeightRank :: "RankId \<Rightarrow> EdgeWeight"
  getWeight :: "Edge \<Rightarrow> EdgeWeight"

subsection \<open>The engine state\<close>

text \<open>
  The data members of \<^verbatim>\<open>EdgeHeap\<close>. \<open>unprocessed\<close> is a \<^verbatim>\<open>uint64_t\<close>. \<open>cout\<close> collects the
  lines the engine prints unconditionally on \<^verbatim>\<open>std::cout\<close>; the tracing guarded by the
  global \<^verbatim>\<open>verbosity\<close> and the progress printer change no data member and are left out.
\<close>

record EdgeHeap =
  graph_ref :: StaticSparseGraph
  unprocessed :: "64 word"
  edges :: "Edge list"
  icf :: "EdgeWeight list"
  icp :: "EdgeWeight list"
  forb_rank2edge :: "RankId list"
  perm_rank2edge :: "RankId list"
  edge2forb_rank :: "RankId list"
  edge2perm_rank :: "RankId list"
  edgeToBundle :: "RankId list"
  edgeBundles :: "RankId list list"
  cout :: "string list"

text \<open>
  \<^verbatim>\<open>std::vector::operator[]\<close> outside the vector is undefined behaviour. Every read and
  write of the source is checked in the model; \<open>None\<close> is the result of an operation that
  would index outside a vector.
\<close>

definition vec_at :: "'a list \<Rightarrow> nat \<Rightarrow> 'a option" where
  "vec_at xs i = (if i < length xs then Some (xs ! i) else None)"

definition vec_put :: "'a list \<Rightarrow> nat \<Rightarrow> 'a \<Rightarrow> 'a list option" where
  "vec_put xs i v = (if i < length xs then Some (xs[i := v]) else None)"

text \<open>A loop over a range whose body updates the state and may fail.\<close>

fun for_each :: "('a \<Rightarrow> 's \<Rightarrow> 's option) \<Rightarrow> 'a list \<Rightarrow> 's \<Rightarrow> 's option" where
  "for_each body [] s = Some s"
| "for_each body (x # xs) s = do { s' \<leftarrow> body x s; for_each body xs s' }"

section \<open>Operations\<close>

subsection \<open>The constructor\<close>

definition EdgeHeap_ctor :: "StaticSparseGraph \<Rightarrow> EdgeHeap" where
  "EdgeHeap_ctor param_graph =
     \<lparr> graph_ref = param_graph,
       unprocessed = 0,
       edges = replicate (1 + numEdges param_graph) InvalidEdge,
       icf = replicate (1 + numEdges param_graph) Forbidden,
       icp = replicate (1 + numEdges param_graph) Forbidden,
       forb_rank2edge = [],
       perm_rank2edge = [],
       edge2forb_rank = replicate (1 + numEdges param_graph) 0,
       edge2perm_rank = replicate (1 + numEdges param_graph) 0,
       edgeToBundle = replicate (1 + numEdges param_graph) 0,
       edgeBundles = replicate (1 + numEdges param_graph) [],
       cout = [] \<rparr>"

subsection \<open>updateHeap\<close>

text \<open>\<^verbatim>\<open>score[heap[i]]\<close>.\<close>

definition score_at :: "RankId list \<Rightarrow> EdgeWeight list \<Rightarrow> nat \<Rightarrow> EdgeWeight option" where
  "score_at heap score i = do { r \<leftarrow> vec_at heap i; vec_at score r }"

text \<open>
  The three statements of every swap in \<^verbatim>\<open>updateHeap\<close>:
  \<^verbatim>\<open>std::swap(heap[pos], heap[c]); index[heap[pos]] = pos; index[heap[c]] = c;\<close>
\<close>

definition swap_slots ::
  "RankId list \<Rightarrow> RankId list \<Rightarrow> nat \<Rightarrow> nat \<Rightarrow> (RankId list \<times> RankId list) option" where
  "swap_slots heap index pos c =
     do { hp \<leftarrow> vec_at heap pos;
          hc \<leftarrow> vec_at heap c;
          let heap' = (heap[pos := hc])[c := hp];
          index' \<leftarrow> vec_put index (heap' ! pos) pos;
          index'' \<leftarrow> vec_put index' (heap' ! c) c;
          Some (heap', index'') }"

text \<open>
  The upward loop. \<^verbatim>\<open>parent\<close> is \<^verbatim>\<open>(pos-1)/2\<close> in \<^verbatim>\<open>uint64_t\<close>; at \<^verbatim>\<open>pos = 0\<close> it wraps, and
  there the loop condition stops at \<^verbatim>\<open>pos > 0\<close> before \<^verbatim>\<open>parent\<close> is used.
\<close>

function sift_up ::
  "RankId list \<Rightarrow> RankId list \<Rightarrow> EdgeWeight list \<Rightarrow> nat \<Rightarrow> (RankId list \<times> RankId list) option" where
  "sift_up heap index score pos =
     (if pos > 0 then
        do { sparent \<leftarrow> score_at heap score ((pos - 1) div 2);
             spos \<leftarrow> score_at heap score pos;
             if sparent < spos then
               do { (heap', index') \<leftarrow> swap_slots heap index pos ((pos - 1) div 2);
                    sift_up heap' index' score ((pos - 1) div 2) }
             else Some (heap, index) }
      else Some (heap, index))"
  by pat_completeness auto
termination
  by (relation "measure (\<lambda>(heap, index, score, pos). pos)") auto

text \<open>
  The downward loop. Its condition joins the two child tests with the non-short-circuit
  \<^verbatim>\<open>|\<close>, so both are evaluated; each reads the heap only behind its own bounds test.
\<close>

definition child_larger :: "RankId list \<Rightarrow> EdgeWeight list \<Rightarrow> nat \<Rightarrow> nat \<Rightarrow> bool option" where
  "child_larger heap score pos c =
     (if c < length heap then
        do { spos \<leftarrow> score_at heap score pos;
             sc \<leftarrow> score_at heap score c;
             Some (spos < sc) }
      else Some False)"

definition right_larger :: "RankId list \<Rightarrow> EdgeWeight list \<Rightarrow> nat \<Rightarrow> nat \<Rightarrow> bool option" where
  "right_larger heap score lChild rChild =
     (if rChild < length heap then
        do { sl \<leftarrow> score_at heap score lChild;
             sr \<leftarrow> score_at heap score rChild;
             Some (sl < sr) }
      else Some False)"

function sift_down ::
  "RankId list \<Rightarrow> RankId list \<Rightarrow> EdgeWeight list \<Rightarrow> nat \<Rightarrow> (RankId list \<times> RankId list) option" where
  "sift_down heap index score pos =
     do { l \<leftarrow> child_larger heap score pos (2 * pos + 1);
          r \<leftarrow> child_larger heap score pos (2 * pos + 2);
          if l \<or> r then
            do { right \<leftarrow> right_larger heap score (2 * pos + 1) (2 * pos + 2);
                 if right then
                   do { (heap', index') \<leftarrow> swap_slots heap index pos (2 * pos + 2);
                        sift_down heap' index' score (2 * pos + 2) }
                 else
                   do { (heap', index') \<leftarrow> swap_slots heap index pos (2 * pos + 1);
                        sift_down heap' index' score (2 * pos + 1) } }
          else Some (heap, index) }"
  by pat_completeness auto
termination
  by (relation "measure (\<lambda>(heap, index, score, pos). length heap - pos)")
     (auto simp: swap_slots_def vec_at_def vec_put_def Let_def split: if_splits)

definition updateHeap ::
  "RankId list \<Rightarrow> RankId \<Rightarrow> EdgeWeight \<Rightarrow> RankId list \<Rightarrow> EdgeWeight list
     \<Rightarrow> (RankId list \<times> RankId list) option" where
  "updateHeap heap e change index score =
     do { pos \<leftarrow> vec_at index e;
          if Fin 0 < change then sift_up heap index score pos
          else sift_down heap index score pos }"

subsection \<open>Maximum queries and cost lookups\<close>

definition getMaxIcfEdge :: "EdgeHeap \<Rightarrow> Edge option" where
  "getMaxIcfEdge s =
     do { ei \<leftarrow> vec_at (forb_rank2edge s) 0;
          if length (forb_rank2edge s) \<le> 1 then Some InvalidEdge
          else do { f \<leftarrow> vec_at (icf s) ei;
                    if f < Fin 0 then Some InvalidEdge
                    else vec_at (edges s) ei } }"

definition getMaxIcpEdge :: "EdgeHeap \<Rightarrow> Edge option" where
  "getMaxIcpEdge s =
     do { ei \<leftarrow> vec_at (perm_rank2edge s) 0;
          if length (perm_rank2edge s) \<le> 1 then Some InvalidEdge
          else do { p \<leftarrow> vec_at (icp s) ei;
                    if p < Fin 0 then Some InvalidEdge
                    else vec_at (edges s) ei } }"

text \<open>
  \<^verbatim>\<open>getIcf(Edge)\<close> and \<^verbatim>\<open>getIcp(Edge)\<close> return the value together with the line they
  print (both print the same text).
\<close>

definition getIcf :: "EdgeHeap \<Rightarrow> Edge \<Rightarrow> (EdgeWeight \<times> string list) option" where
  "getIcf s e =
     do { eb \<leftarrow> vec_at (edgeToBundle s) (findIndex (graph_ref s) e);
          f \<leftarrow> vec_at (icf s) eb;
          Some (f, if findIndex (graph_ref s) e = 0 then [''getIcf on edge with rank 0''] else []) }"

definition getIcp :: "EdgeHeap \<Rightarrow> Edge \<Rightarrow> (EdgeWeight \<times> string list) option" where
  "getIcp s e =
     do { eb \<leftarrow> vec_at (edgeToBundle s) (findIndex (graph_ref s) e);
          p \<leftarrow> vec_at (icp s) eb;
          Some (p, if findIndex (graph_ref s) e = 0 then [''getIcf on edge with rank 0''] else []) }"

definition numUnprocessed :: "EdgeHeap \<Rightarrow> 64 word" where
  "numUnprocessed s = unprocessed s"

subsection \<open>increaseIcf and increaseIcp\<close>

text \<open>
  The two assignments \<^verbatim>\<open>icf[eb] += w; icf[eb] = std::max(icf[eb], 0.0);\<close> are one
  write of \<open>std_max (icf[eb] + w) 0\<close>.
\<close>

definition increaseIcf :: "EdgeHeap \<Rightarrow> Edge \<Rightarrow> EdgeWeight \<Rightarrow> EdgeHeap option" where
  "increaseIcf s e w =
     (let rId = findIndex (graph_ref s) e in
      if rId > 0 \<and> w \<noteq> Fin 0 then
        do { eb \<leftarrow> vec_at (edgeToBundle s) rId;
             f \<leftarrow> vec_at (icf s) eb;
             if Fin 0 \<le> f then
               do { icf' \<leftarrow> vec_put (icf s) eb (std_max (f + w) (Fin 0));
                    (heap', index') \<leftarrow>
                      updateHeap (forb_rank2edge s) eb w (edge2forb_rank s) icf';
                    Some (s\<lparr>icf := icf', forb_rank2edge := heap', edge2forb_rank := index'\<rparr>) }
             else Some s }
      else Some s)"

definition increaseIcp :: "EdgeHeap \<Rightarrow> Edge \<Rightarrow> EdgeWeight \<Rightarrow> EdgeHeap option" where
  "increaseIcp s e w =
     (let rId = findIndex (graph_ref s) e in
      if rId > 0 \<and> w \<noteq> Fin 0 then
        do { eb \<leftarrow> vec_at (edgeToBundle s) rId;
             p \<leftarrow> vec_at (icp s) eb;
             if Fin 0 \<le> p then
               do { icp' \<leftarrow> vec_put (icp s) eb (std_max (p + w) (Fin 0));
                    (heap', index') \<leftarrow>
                      updateHeap (perm_rank2edge s) eb w (edge2perm_rank s) icp';
                    Some (s\<lparr>icp := icp', perm_rank2edge := heap', edge2perm_rank := index'\<rparr>) }
             else Some s }
      else Some s)"

subsection \<open>removeEdge\<close>

text \<open>\<^verbatim>\<open>removeEdge(const RankId)\<close>.\<close>

definition removeEdgeRank :: "EdgeHeap \<Rightarrow> RankId \<Rightarrow> EdgeHeap option" where
  "removeEdgeRank s rId =
     (if rId = 0 then Some s
      else
        do { f \<leftarrow> vec_at (icf s) rId;
             if f \<noteq> Forbidden then
               do { p \<leftarrow> vec_at (icp s) rId;
                    if p \<noteq> Forbidden then
                      do { icf' \<leftarrow> vec_put (icf s) rId Forbidden;
                           icp' \<leftarrow> vec_put (icp s) rId Forbidden;
                           (fheap, findex) \<leftarrow>
                             updateHeap (forb_rank2edge s) rId Forbidden (edge2forb_rank s) icf';
                           (pheap, pindex) \<leftarrow>
                             updateHeap (perm_rank2edge s) rId Forbidden (edge2perm_rank s) icp';
                           Some (s\<lparr>icf := icf', icp := icp',
                                   forb_rank2edge := fheap, edge2forb_rank := findex,
                                   perm_rank2edge := pheap, edge2perm_rank := pindex,
                                   unprocessed := unprocessed s - 1\<rparr>) }
                    else Some s }
             else Some s })"

text \<open>\<^verbatim>\<open>removeEdge(const Edge)\<close>.\<close>

definition removeEdge :: "EdgeHeap \<Rightarrow> Edge \<Rightarrow> EdgeHeap option" where
  "removeEdge s e = removeEdgeRank s (findIndex (graph_ref s) e)"

subsection \<open>mergeEdges\<close>

text \<open>
  One round of the loop over the absorbed bundle:
  \<^verbatim>\<open>edgeBundles[eb1].push_back(toDelete); edgeToBundle[toDelete] = eb1;\<close>
\<close>

definition move_rank :: "RankId \<Rightarrow> RankId \<Rightarrow> EdgeHeap \<Rightarrow> EdgeHeap option" where
  "move_rank eb1 toDelete s =
     do { members \<leftarrow> vec_at (edgeBundles s) eb1;
          bundles' \<leftarrow> vec_put (edgeBundles s) eb1 (members @ [toDelete]);
          toBundle' \<leftarrow> vec_put (edgeToBundle s) toDelete eb1;
          Some (s\<lparr>edgeBundles := bundles', edgeToBundle := toBundle'\<rparr>) }"

text \<open>
  The two branches of \<^verbatim>\<open>mergeEdges\<close> are the same statements with \<^verbatim>\<open>eb1\<close> and \<^verbatim>\<open>eb2\<close>
  exchanged; \<open>merge_into s eb1 eb2\<close> is the first branch (bundle \<open>eb2\<close> is absorbed
  into bundle \<open>eb1\<close>).
\<close>

definition merge_into :: "EdgeHeap \<Rightarrow> RankId \<Rightarrow> RankId \<Rightarrow> EdgeHeap option" where
  "merge_into s eb1 eb2 =
     do { members \<leftarrow> vec_at (edgeBundles s) eb2;
          s1 \<leftarrow> for_each (move_rank eb1) members s;
          bundles' \<leftarrow> vec_put (edgeBundles s1) eb2 [];
          let s2 = s1\<lparr>edgeBundles := bundles'\<rparr>;
          f2 \<leftarrow> vec_at (icf s2) eb2;
          s3 \<leftarrow> (if f2 < Fin 0
                 then Some (s2\<lparr>cout := cout s2 @ [''Merged edge has negative icf'']\<rparr>)
                 else do { f1 \<leftarrow> vec_at (icf s2) eb1;
                           icf' \<leftarrow> vec_put (icf s2) eb1 (f1 + f2);
                           Some (s2\<lparr>icf := icf'\<rparr>) });
          p2 \<leftarrow> vec_at (icp s3) eb2;
          s4 \<leftarrow> (if p2 < Fin 0
                 then Some (s3\<lparr>cout := cout s3 @ [''Merged edge has negative icp'']\<rparr>)
                 else do { p1 \<leftarrow> vec_at (icp s3) eb1;
                           icp' \<leftarrow> vec_put (icp s3) eb1 (p1 + p2);
                           Some (s3\<lparr>icp := icp'\<rparr>) });
          removeEdgeRank s4 eb2 }"

text \<open>The guard \<^verbatim>\<open>(r1 & r2) == 0\<close> is the bitwise conjunction of the two ranks.\<close>

definition mergeEdges :: "EdgeHeap \<Rightarrow> Edge \<Rightarrow> Edge \<Rightarrow> EdgeHeap option" where
  "mergeEdges s e1 e2 =
     (let r1 = findIndex (graph_ref s) e1;
          r2 = findIndex (graph_ref s) e2 in
      if r1 AND r2 = 0 then Some s
      else
        do { eb1 \<leftarrow> vec_at (edgeToBundle s) r1;
             eb2 \<leftarrow> vec_at (edgeToBundle s) r2;
             if eb1 = eb2 then Some s
             else
               do { b1 \<leftarrow> vec_at (edgeBundles s) eb1;
                    b2 \<leftarrow> vec_at (edgeBundles s) eb2;
                    if length b1 > length b2 then merge_into s eb1 eb2
                    else merge_into s eb2 eb1 } })"

subsection \<open>initInducedCosts\<close>

text \<open>
  \<^verbatim>\<open>std::set_intersection\<close> on two ascending ranges, and \<^verbatim>\<open>std::sort\<close> with a comparison.
  \<^verbatim>\<open>std::sort\<close> leaves the order of equivalent elements open; the model keeps them in
  the order they had.
\<close>

fun set_intersection :: "nat list \<Rightarrow> nat list \<Rightarrow> nat list" where
  "set_intersection (x # xs) (y # ys) =
     (if x < y then set_intersection xs (y # ys)
      else if y < x then set_intersection (x # xs) ys
      else x # set_intersection xs ys)"
| "set_intersection xs ys = []"

fun sort_insert :: "('a \<Rightarrow> 'a \<Rightarrow> bool) \<Rightarrow> 'a \<Rightarrow> 'a list \<Rightarrow> 'a list" where
  "sort_insert cmp x [] = [x]"
| "sort_insert cmp x (y # ys) =
     (if cmp y x then y # sort_insert cmp x ys else x # y # ys)"

definition std_sort :: "('a \<Rightarrow> 'a \<Rightarrow> bool) \<Rightarrow> 'a list \<Rightarrow> 'a list" where
  "std_sort cmp xs = foldr (sort_insert cmp) xs []"

text \<open>
  The innermost loop body, for one common neighbour \<^verbatim>\<open>w\<close>. The two-weight overloads
  \<^verbatim>\<open>getIcf(w_uw, w_vw)\<close> and \<^verbatim>\<open>getIcp(w_uw, w_vw)\<close> (the triangle cost kernel) are declared
  outside the source at hand and are the parameters \<open>kernelIcf\<close> and \<open>kernelIcp\<close>.
\<close>

definition add_triangle ::
  "(EdgeWeight \<Rightarrow> EdgeWeight \<Rightarrow> EdgeWeight) \<Rightarrow> (EdgeWeight \<Rightarrow> EdgeWeight \<Rightarrow> EdgeWeight)
     \<Rightarrow> NodeId \<Rightarrow> NodeId \<Rightarrow> RankId \<Rightarrow> NodeId \<Rightarrow> EdgeHeap \<Rightarrow> EdgeHeap option" where
  "add_triangle kernelIcf kernelIcp u v rId w s =
     (let w_uw = getWeight (graph_ref s) (Edge u w);
          w_vw = getWeight (graph_ref s) (Edge v w) in
      do { f \<leftarrow> vec_at (icf s) rId;
           icf' \<leftarrow> vec_put (icf s) rId (f + kernelIcf w_uw w_vw);
           p \<leftarrow> vec_at (icp s) rId;
           icp' \<leftarrow> vec_put (icp s) rId (p + kernelIcp w_uw w_vw);
           Some (s\<lparr>icf := icf', icp := icp'\<rparr>) })"

text \<open>The body of the loop over the neighbours \<^verbatim>\<open>v\<close> of \<^verbatim>\<open>u\<close>.\<close>

definition init_edge ::
  "(EdgeWeight \<Rightarrow> EdgeWeight \<Rightarrow> EdgeWeight) \<Rightarrow> (EdgeWeight \<Rightarrow> EdgeWeight \<Rightarrow> EdgeWeight)
     \<Rightarrow> NodeId \<Rightarrow> NodeId \<Rightarrow> EdgeHeap \<Rightarrow> EdgeHeap option" where
  "init_edge kernelIcf kernelIcp u v s =
     (if v < u then Some s
      else
        let g = graph_ref s;
            uv = Edge u v;
            rId = findIndexId g (edgeId g uv) in
        if rId = 0 then Some s
        else
          do { edges' \<leftarrow> vec_put (edges s) rId uv;
               let s1 = s\<lparr>edges := edges'\<rparr>;
                   w_uv = getWeightRank g rId in
               if w_uv = Fin 0 \<or> w_uv = Forbidden \<or> w_uv = Permanent then Some s1
               else
                 do { icf0 \<leftarrow> vec_put (icf s1) rId (Fin 0);
                      icp0 \<leftarrow> vec_put (icp s1) rId (Fin 0);
                      let s2 = s1\<lparr>icf := icf0, icp := icp0, unprocessed := unprocessed s1 + 1\<rparr>;
                      s3 \<leftarrow> (if Fin 0 \<le> w_uv
                             then do { f \<leftarrow> vec_at (icf s2) rId;
                                       icf' \<leftarrow> vec_put (icf s2) rId (f + w_uv);
                                       Some (s2\<lparr>icf := icf'\<rparr>) }
                             else do { p \<leftarrow> vec_at (icp s2) rId;
                                       icp' \<leftarrow> vec_put (icp s2) rId (p + (- w_uv));
                                       Some (s2\<lparr>icp := icp'\<rparr>) });
                      for_each (add_triangle kernelIcf kernelIcp u v rId)
                        (set_intersection (getNonZeroNeighbours g u) (getNonZeroNeighbours g v))
                        s3 } })"

text \<open>The body of the outer loop over the nodes \<^verbatim>\<open>u\<close>.\<close>

definition init_node ::
  "(EdgeWeight \<Rightarrow> EdgeWeight \<Rightarrow> EdgeWeight) \<Rightarrow> (EdgeWeight \<Rightarrow> EdgeWeight \<Rightarrow> EdgeWeight)
     \<Rightarrow> NodeId \<Rightarrow> EdgeHeap \<Rightarrow> EdgeHeap option" where
  "init_node kernelIcf kernelIcp u s =
     for_each (init_edge kernelIcf kernelIcp u) (getNonZeroNeighbours (graph_ref s) u) s"

text \<open>
  The sweep for not-a-number values: it stops at the first one found and prints one line.
\<close>

fun nan_sweep :: "StaticSparseGraph \<Rightarrow> EdgeWeight list \<Rightarrow> EdgeWeight list \<Rightarrow> nat list
                    \<Rightarrow> string list option" where
  "nan_sweep g icf_v icp_v [] = Some []"
| "nan_sweep g icf_v icp_v (i # rest) =
     do { f \<leftarrow> vec_at icf_v (findIndexId g i);
          if f = NaN then Some [''NaN! in icf'']
          else do { p \<leftarrow> vec_at icp_v (findIndexId g i);
                    if p = NaN then Some [''NaN! in icp'']
                    else nan_sweep g icf_v icp_v rest } }"

text \<open>
  \<^verbatim>\<open>std::sort\<close> with the comparison \<^verbatim>\<open>score[a] > score[b]\<close>; the comparison reads the score
  of every element of the vector.
\<close>

definition sort_by_score :: "EdgeWeight list \<Rightarrow> RankId list \<Rightarrow> RankId list option" where
  "sort_by_score score rank2edge =
     (if list_all (\<lambda>a. a < length score) rank2edge
      then Some (std_sort (\<lambda>a b. score ! b < score ! a) rank2edge)
      else None)"

text \<open>The body of the loop that saves the heap slot of every rank.\<close>

definition save_index :: "nat \<Rightarrow> EdgeHeap \<Rightarrow> EdgeHeap option" where
  "save_index i s =
     do { fr \<leftarrow> vec_at (forb_rank2edge s) i;
          findex \<leftarrow> vec_put (edge2forb_rank s) fr i;
          pr \<leftarrow> vec_at (perm_rank2edge s) i;
          pindex \<leftarrow> vec_put (edge2perm_rank s) pr i;
          Some (s\<lparr>edge2forb_rank := findex, edge2perm_rank := pindex\<rparr>) }"

text \<open>The body of the loop that makes every rank its own bundle.\<close>

definition init_bundle :: "RankId \<Rightarrow> EdgeHeap \<Rightarrow> EdgeHeap option" where
  "init_bundle rid s =
     do { toBundle' \<leftarrow> vec_put (edgeToBundle s) rid rid;
          members \<leftarrow> vec_at (edgeBundles s) rid;
          bundles' \<leftarrow> vec_put (edgeBundles s) rid (members @ [rid]);
          Some (s\<lparr>edgeToBundle := toBundle', edgeBundles := bundles'\<rparr>) }"

definition initInducedCosts ::
  "(EdgeWeight \<Rightarrow> EdgeWeight \<Rightarrow> EdgeWeight) \<Rightarrow> (EdgeWeight \<Rightarrow> EdgeWeight \<Rightarrow> EdgeWeight)
     \<Rightarrow> EdgeHeap \<Rightarrow> EdgeHeap option" where
  "initInducedCosts kernelIcf kernelIcp s =
     do { s1 \<leftarrow> for_each (init_node kernelIcf kernelIcp) [0 ..< numNodes (graph_ref s)] s;
          out \<leftarrow> nan_sweep (graph_ref s1) (icf s1) (icp s1) [0 ..< length (icf s1)];
          let s2 = s1\<lparr>cout := cout s1 @ out,
                      forb_rank2edge := forb_rank2edge s1 @ [0 ..< length (icf s1)],
                      perm_rank2edge := perm_rank2edge s1 @ [0 ..< length (icf s1)]\<rparr>;
          fheap \<leftarrow> sort_by_score (icf s2) (forb_rank2edge s2);
          pheap \<leftarrow> sort_by_score (icp s2) (perm_rank2edge s2);
          let s3 = s2\<lparr>forb_rank2edge := fheap, perm_rank2edge := pheap\<rparr>;
          s4 \<leftarrow> for_each save_index [0 ..< length (icf s3)] s3;
          for_each init_bundle [0 ..< length (icf s4)] s4 }"

section \<open>Invariants\<close>

declare sift_up.simps [simp del] sift_down.simps [simp del]

text \<open>
  A heap array and its reverse index over the ranks \<open>0, \<dots>, n - 1\<close>: every slot holds a
  rank, the index of that rank is the slot, and the other way round.
\<close>

definition heap_indexed :: "RankId list \<Rightarrow> RankId list \<Rightarrow> nat \<Rightarrow> bool" where
  "heap_indexed heap index n \<longleftrightarrow>
     length heap = n \<and> length index = n
     \<and> (\<forall>i \<in> {0..<n}. heap ! i < n \<and> index ! (heap ! i) = i)
     \<and> (\<forall>r \<in> {0..<n}. index ! r < n \<and> heap ! (index ! r) = r)"

text \<open>The heap array and the index after one swap of \<^verbatim>\<open>updateHeap\<close>.\<close>

definition swap_heap :: "RankId list \<Rightarrow> nat \<Rightarrow> nat \<Rightarrow> RankId list" where
  "swap_heap heap a b = (heap[a := heap ! b])[b := heap ! a]"

definition swap_index :: "RankId list \<Rightarrow> RankId list \<Rightarrow> nat \<Rightarrow> nat \<Rightarrow> RankId list" where
  "swap_index heap index a b = (index[heap ! b := a])[heap ! a := b]"

text \<open>
  The bundles: every rank has a bundle, only rank 0 has bundle 0, and the member list of
  a bundle holds exactly the ranks that have this bundle.
\<close>

definition bundles_ok :: "RankId list \<Rightarrow> RankId list list \<Rightarrow> nat \<Rightarrow> bool" where
  "bundles_ok toBundle bundles n \<longleftrightarrow>
     length toBundle = n \<and> length bundles = n
     \<and> (\<forall>r \<in> {0..<n}. toBundle ! r < n \<and> (toBundle ! r = 0 \<longleftrightarrow> r = 0))
     \<and> (\<forall>b \<in> {0..<n}. set (bundles ! b) = set (filter (\<lambda>t. toBundle ! t = b) [0..<n]))"

text \<open>
  The invariant of the engine after \<^verbatim>\<open>initInducedCosts\<close>: all tables have one size, both
  heaps are indexed, the bundles are consistent, and rank 0 has no cost value.
\<close>

definition engine_inv :: "EdgeHeap \<Rightarrow> bool" where
  "engine_inv s \<longleftrightarrow>
     0 < length (icf s) \<and> length (icp s) = length (icf s) \<and> length (edges s) = length (icf s)
     \<and> heap_indexed (forb_rank2edge s) (edge2forb_rank s) (length (icf s))
     \<and> heap_indexed (perm_rank2edge s) (edge2perm_rank s) (length (icf s))
     \<and> bundles_ok (edgeToBundle s) (edgeBundles s) (length (icf s))
     \<and> icf s ! 0 = Forbidden \<and> icp s ! 0 = Forbidden"

text \<open>
  The state of \<^verbatim>\<open>mergeEdges\<close> before its call of \<^verbatim>\<open>removeEdge\<close>, when bundle \<open>del\<close> is
  absorbed into bundle \<open>keep\<close>: the members are moved, and the two values of \<open>del\<close> are
  added to those of \<open>keep\<close> or reported.
\<close>

definition merge_tables :: "EdgeHeap \<Rightarrow> RankId \<Rightarrow> RankId \<Rightarrow> EdgeHeap" where
  "merge_tables s keep del =
     (let s2 = s\<lparr>edgeToBundle :=
                    foldl (\<lambda>tb t. tb[t := keep]) (edgeToBundle s) (edgeBundles s ! del),
                  edgeBundles :=
                    ((edgeBundles s)[keep := edgeBundles s ! keep @ edgeBundles s ! del])
                      [del := []]\<rparr>;
          s3 = (if icf s ! del < Fin 0
                then s2\<lparr>cout := cout s2 @ [''Merged edge has negative icf'']\<rparr>
                else s2\<lparr>icf := (icf s)[keep := icf s ! keep + icf s ! del]\<rparr>)
      in if icp s ! del < Fin 0
         then s3\<lparr>cout := cout s3 @ [''Merged edge has negative icp'']\<rparr>
         else s3\<lparr>icp := (icp s)[keep := icp s ! keep + icp s ! del]\<rparr>)"

text \<open>
  The max-heap order of a heap array under a score table: the value at every slot is
  \<open>\<ge>\<close> the value at each of its children \<open>2i+1\<close> and \<open>2i+2\<close> that are in bounds.
\<close>

definition heap_ordered :: "RankId list \<Rightarrow> EdgeWeight list \<Rightarrow> bool" where
  "heap_ordered heap score \<longleftrightarrow>
     list_all (\<lambda>i.
        (if 2 * i + 1 < length heap then score ! (heap ! (2 * i + 1)) \<le> score ! (heap ! i)
         else True)
      \<and> (if 2 * i + 2 < length heap then score ! (heap ! (2 * i + 2)) \<le> score ! (heap ! i)
         else True))
       [0 ..< length heap]"

definition forb_heap_ordered :: "EdgeHeap \<Rightarrow> bool" where
  "forb_heap_ordered s = heap_ordered (forb_rank2edge s) (icf s)"

definition perm_heap_ordered :: "EdgeHeap \<Rightarrow> bool" where
  "perm_heap_ordered s = heap_ordered (perm_rank2edge s) (icp s)"

text \<open>
  The state of \<^verbatim>\<open>initInducedCosts\<close> during its loop over the edges: only \<open>edges\<close>, \<open>icf\<close>,
  \<open>icp\<close> and \<open>unprocessed\<close> have changed since the constructor, and the entries of rank 0
  have not.
\<close>

definition init_frame :: "StaticSparseGraph \<Rightarrow> nat \<Rightarrow> EdgeHeap \<Rightarrow> bool" where
  "init_frame g n s \<longleftrightarrow>
     graph_ref s = g \<and> 0 < n
     \<and> length (icf s) = n \<and> length (icp s) = n \<and> length (edges s) = n
     \<and> forb_rank2edge s = [] \<and> perm_rank2edge s = []
     \<and> edge2forb_rank s = replicate n 0 \<and> edge2perm_rank s = replicate n 0
     \<and> edgeToBundle s = replicate n 0 \<and> edgeBundles s = replicate n []
     \<and> cout s = []
     \<and> icf s ! 0 = Forbidden \<and> icp s ! 0 = Forbidden"

text \<open>
  The pairs \<open>(u, v)\<close> that the two outer loops of \<^verbatim>\<open>initInducedCosts\<close> visit, in order,
  the rank the loop body finds for a pair, and the pairs for which it computes costs: those
  with \<open>u \<le> v\<close>, a non-zero rank and a weight that is neither 0 nor a sentinel.
\<close>

definition visits :: "StaticSparseGraph \<Rightarrow> (NodeId \<times> NodeId) list" where
  "visits g = concat (map (\<lambda>u. map (Pair u) (getNonZeroNeighbours g u)) [0 ..< numNodes g])"

definition visit_rank :: "StaticSparseGraph \<Rightarrow> NodeId \<times> NodeId \<Rightarrow> RankId" where
  "visit_rank g uv = findIndexId g (edgeId g (Edge (fst uv) (snd uv)))"

definition plain_weight :: "EdgeWeight \<Rightarrow> bool" where
  "plain_weight w \<longleftrightarrow> \<not> (w = Fin 0 \<or> w = Forbidden \<or> w = Permanent)"

definition tracked :: "StaticSparseGraph \<Rightarrow> NodeId \<times> NodeId \<Rightarrow> bool" where
  "tracked g uv \<longleftrightarrow>
     fst uv \<le> snd uv \<and> visit_rank g uv \<noteq> 0 \<and> plain_weight (getWeightRank g (visit_rank g uv))"

text \<open>
  The induced costs of an edge \<open>(u, v)\<close> of weight \<open>w_uv\<close> as the specification states them:
  the direct cost of the edge plus the contributions of the kernel over the common
  neighbours, added in ascending order of the neighbour.
\<close>

definition edge_icf ::
  "(EdgeWeight \<Rightarrow> EdgeWeight \<Rightarrow> EdgeWeight) \<Rightarrow> StaticSparseGraph \<Rightarrow> NodeId \<Rightarrow> NodeId
     \<Rightarrow> EdgeWeight \<Rightarrow> EdgeWeight" where
  "edge_icf kernelIcf g u v w_uv =
     foldl (\<lambda>a w. a + kernelIcf (getWeight g (Edge u w)) (getWeight g (Edge v w)))
       (if Fin 0 \<le> w_uv then w_uv else Fin 0)
       (set_intersection (getNonZeroNeighbours g u) (getNonZeroNeighbours g v))"

definition edge_icp ::
  "(EdgeWeight \<Rightarrow> EdgeWeight \<Rightarrow> EdgeWeight) \<Rightarrow> StaticSparseGraph \<Rightarrow> NodeId \<Rightarrow> NodeId
     \<Rightarrow> EdgeWeight \<Rightarrow> EdgeWeight" where
  "edge_icp kernelIcp g u v w_uv =
     foldl (\<lambda>a w. a + kernelIcp (getWeight g (Edge u w)) (getWeight g (Edge v w)))
       (if w_uv < Fin 0 then - w_uv else Fin 0)
       (set_intersection (getNonZeroNeighbours g u) (getNonZeroNeighbours g v))"

text \<open>
  What the engine asks of the graph for \<^verbatim>\<open>initInducedCosts\<close> to stay inside its tables:
  the ranks are at most \<^verbatim>\<open>numEdges\<close>.
\<close>

definition ranks_in_range :: "StaticSparseGraph \<Rightarrow> bool" where
  "ranks_in_range g \<longleftrightarrow>
     list_all (\<lambda>uv. visit_rank g uv \<le> numEdges g) (visits g)
     \<and> list_all (\<lambda>i. findIndexId g i \<le> numEdges g) [0 ..< 1 + numEdges g]"

text \<open>The part of \<^verbatim>\<open>initInducedCosts\<close> after its loop over the edges.\<close>

definition init_finish :: "EdgeHeap \<Rightarrow> EdgeHeap option" where
  "init_finish s1 =
     do { out \<leftarrow> nan_sweep (graph_ref s1) (icf s1) (icp s1) [0 ..< length (icf s1)];
          let s2 = s1\<lparr>cout := cout s1 @ out,
                      forb_rank2edge := forb_rank2edge s1 @ [0 ..< length (icf s1)],
                      perm_rank2edge := perm_rank2edge s1 @ [0 ..< length (icf s1)]\<rparr>;
          fheap \<leftarrow> sort_by_score (icf s2) (forb_rank2edge s2);
          pheap \<leftarrow> sort_by_score (icp s2) (perm_rank2edge s2);
          let s3 = s2\<lparr>forb_rank2edge := fheap, perm_rank2edge := pheap\<rparr>;
          s4 \<leftarrow> for_each save_index [0 ..< length (icf s3)] s3;
          for_each init_bundle [0 ..< length (icf s4)] s4 }"

text \<open>
  The states of the engine: the state that \<^verbatim>\<open>initInducedCosts\<close> returns on the constructed
  engine, and every state that one of the four mutating operations returns on such a state.
\<close>

inductive reachable ::
  "(EdgeWeight \<Rightarrow> EdgeWeight \<Rightarrow> EdgeWeight) \<Rightarrow> (EdgeWeight \<Rightarrow> EdgeWeight \<Rightarrow> EdgeWeight)
     \<Rightarrow> StaticSparseGraph \<Rightarrow> EdgeHeap \<Rightarrow> bool"
  for kernelIcf kernelIcp g where
    after_init:
      "initInducedCosts kernelIcf kernelIcp (EdgeHeap_ctor g) = Some s
       \<Longrightarrow> reachable kernelIcf kernelIcp g s"
  | after_increaseIcf:
      "reachable kernelIcf kernelIcp g s \<Longrightarrow> increaseIcf s e w = Some s'
       \<Longrightarrow> reachable kernelIcf kernelIcp g s'"
  | after_increaseIcp:
      "reachable kernelIcf kernelIcp g s \<Longrightarrow> increaseIcp s e w = Some s'
       \<Longrightarrow> reachable kernelIcf kernelIcp g s'"
  | after_removeEdge:
      "reachable kernelIcf kernelIcp g s \<Longrightarrow> removeEdge s e = Some s'
       \<Longrightarrow> reachable kernelIcf kernelIcp g s'"
  | after_mergeEdges:
      "reachable kernelIcf kernelIcp g s \<Longrightarrow> mergeEdges s e1 e2 = Some s'
       \<Longrightarrow> reachable kernelIcf kernelIcp g s'"

section \<open>Example inputs\<close>

text \<open>
  A graph adapter built from a node count and a list of weighted edges \<open>(u, v, w)\<close>. The
  rank of an edge is its position in the list, counted from 1, in either orientation; an
  edge that is not listed has rank 0 and weight 0. The edge id is the usual index into the
  lower triangle.
\<close>

fun example_edge_id :: "Edge \<Rightarrow> EdgeId" where
  "example_edge_id (Edge u v) = (max u v * (max u v - 1)) div 2 + min u v"
| "example_edge_id InvalidEdge = 0"

fun example_rank :: "RankId \<Rightarrow> (NodeId \<times> NodeId \<times> real) list \<Rightarrow> Edge \<Rightarrow> RankId" where
  "example_rank k [] e = 0"
| "example_rank k ((u, v, w) # es) e =
     (if e = Edge u v \<or> e = Edge v u then k else example_rank (Suc k) es e)"

fun example_id_rank :: "RankId \<Rightarrow> (NodeId \<times> NodeId \<times> real) list \<Rightarrow> EdgeId \<Rightarrow> RankId" where
  "example_id_rank k [] i = 0"
| "example_id_rank k ((u, v, w) # es) i =
     (if i = example_edge_id (Edge u v) then k else example_id_rank (Suc k) es i)"

definition example_weight :: "(NodeId \<times> NodeId \<times> real) list \<Rightarrow> RankId \<Rightarrow> EdgeWeight" where
  "example_weight es r =
     (if 0 < r \<and> r \<le> length es then Fin (snd (snd (es ! (r - 1)))) else Fin 0)"

definition example_neighbours :: "(NodeId \<times> NodeId \<times> real) list \<Rightarrow> NodeId \<Rightarrow> NodeId list" where
  "example_neighbours es a =
     sort (remdups (map (\<lambda>(u, v, w). if u = a then v else u)
                        (filter (\<lambda>(u, v, w). u = a \<or> v = a) es)))"

definition example_graph :: "nat \<Rightarrow> (NodeId \<times> NodeId \<times> real) list \<Rightarrow> StaticSparseGraph" where
  "example_graph n es =
     \<lparr> numNodes = n,
       numEdges = length es,
       getNonZeroNeighbours = example_neighbours es,
       edgeId = example_edge_id,
       findIndexId = example_id_rank 1 es,
       findIndex = example_rank 1 es,
       getWeightRank = example_weight es,
       getWeight = (\<lambda>e. example_weight es (example_rank 1 es e)) \<rparr>"

text \<open>A triangle cost kernel for the examples: the classical induced costs.\<close>

fun example_kernelIcf :: "EdgeWeight \<Rightarrow> EdgeWeight \<Rightarrow> EdgeWeight" where
  "example_kernelIcf (Fin a) (Fin b) = (if 0 < a \<and> 0 < b then Fin (min a b) else Fin 0)"
| "example_kernelIcf a b = Fin 0"

fun example_kernelIcp :: "EdgeWeight \<Rightarrow> EdgeWeight \<Rightarrow> EdgeWeight" where
  "example_kernelIcp (Fin a) (Fin b) =
     (if (a < 0 \<and> 0 < b) \<or> (0 < a \<and> b < 0) then Fin (min \<bar>a\<bar> \<bar>b\<bar>) else Fin 0)"
| "example_kernelIcp a b = Fin 0"

definition example_init :: "nat \<Rightarrow> (NodeId \<times> NodeId \<times> real) list \<Rightarrow> EdgeHeap option" where
  "example_init n es =
     initInducedCosts example_kernelIcf example_kernelIcp (EdgeHeap_ctor (example_graph n es))"

text \<open>
  The path \<open>0 - 1 - 2 - 3\<close> with weights 5, 4, 3 (ranks 1, 2, 3); a single edge of weight
  \<open>-1\<close>; and the graph of the scenario of the specification: \<open>(0,1) = 3\<close>, \<open>(0,2) = -1\<close>,
  \<open>(1,2) = 2\<close>, \<open>(2,3) = 1\<close>.
\<close>

definition path_edges :: "(NodeId \<times> NodeId \<times> real) list" where
  "path_edges = [(0, 1, 5), (1, 2, 4), (2, 3, 3)]"

definition negative_edges :: "(NodeId \<times> NodeId \<times> real) list" where
  "negative_edges = [(0, 1, - 1)]"

definition scenario_edges :: "(NodeId \<times> NodeId \<times> real) list" where
  "scenario_edges = [(0, 1, 3), (0, 2, - 1), (1, 2, 2), (2, 3, 1)]"

text \<open>The data members of a state, without the reference to the graph.\<close>

definition snapshot ::
  "EdgeHeap \<Rightarrow> 64 word \<times> Edge list \<times> EdgeWeight list \<times> EdgeWeight list \<times> RankId list \<times> RankId list
     \<times> RankId list \<times> RankId list \<times> RankId list \<times> RankId list list \<times> string list" where
  "snapshot s =
     (unprocessed s, edges s, icf s, icp s, forb_rank2edge s, perm_rank2edge s,
      edge2forb_rank s, edge2perm_rank s, edgeToBundle s, edgeBundles s, cout s)"

text \<open>Operations applied to the result of an earlier operation.\<close>

definition then_increaseIcf :: "EdgeHeap option \<Rightarrow> Edge \<Rightarrow> EdgeWeight \<Rightarrow> EdgeHeap option" where
  "then_increaseIcf r e w = Option.bind r (\<lambda>s. increaseIcf s e w)"

definition then_increaseIcp :: "EdgeHeap option \<Rightarrow> Edge \<Rightarrow> EdgeWeight \<Rightarrow> EdgeHeap option" where
  "then_increaseIcp r e w = Option.bind r (\<lambda>s. increaseIcp s e w)"

definition then_removeEdge :: "EdgeHeap option \<Rightarrow> Edge \<Rightarrow> EdgeHeap option" where
  "then_removeEdge r e = Option.bind r (\<lambda>s. removeEdge s e)"

definition then_mergeEdges :: "EdgeHeap option \<Rightarrow> Edge \<Rightarrow> Edge \<Rightarrow> EdgeHeap option" where
  "then_mergeEdges r e1 e2 = Option.bind r (\<lambda>s. mergeEdges s e1 e2)"

definition then_getIcf :: "EdgeHeap option \<Rightarrow> Edge \<Rightarrow> (EdgeWeight \<times> string list) option" where
  "then_getIcf r e = Option.bind r (\<lambda>s. getIcf s e)"

text \<open>
  Three nodes with the edge \<open>(0,1)\<close> of weight 5 (rank 1) and the edge \<open>(1,2)\<close> of rank 2
  whose weight is exactly 0.
\<close>

definition zero_weight_edges :: "(NodeId \<times> NodeId \<times> real) list" where
  "zero_weight_edges = [(0, 1, 5), (1, 2, 0)]"

section \<open>Checked vector access\<close>

lemma vec_at_Some [simp]: "i < length xs \<Longrightarrow> vec_at xs i = Some (xs ! i)"
  by (simp add: vec_at_def)

lemma vec_at_None [simp]: "\<not> i < length xs \<Longrightarrow> vec_at xs i = None"
  by (simp add: vec_at_def)

lemma vec_put_Some [simp]: "i < length xs \<Longrightarrow> vec_put xs i v = Some (xs[i := v])"
  by (simp add: vec_put_def)

lemma vec_put_None [simp]: "\<not> i < length xs \<Longrightarrow> vec_put xs i v = None"
  by (simp add: vec_put_def)

lemma vec_at_eq_Some: "vec_at xs i = Some x \<longleftrightarrow> i < length xs \<and> xs ! i = x"
  by (auto simp: vec_at_def)

lemma vec_put_eq_Some: "vec_put xs i v = Some ys \<longleftrightarrow> i < length xs \<and> ys = xs[i := v]"
  by (auto simp: vec_put_def)

section \<open>The heap array and its index\<close>

lemma heap_indexedD:
  assumes "heap_indexed heap index n"
  shows "length heap = n" "length index = n"
    "i < n \<Longrightarrow> heap ! i < n" "i < n \<Longrightarrow> index ! (heap ! i) = i"
    "r < n \<Longrightarrow> index ! r < n" "r < n \<Longrightarrow> heap ! (index ! r) = r"
  using assms by (auto simp: heap_indexed_def)

lemma heap_indexed_inj:
  assumes "heap_indexed heap index n" "i < n" "j < n" "heap ! i = heap ! j"
  shows "i = j"
  using assms by (metis heap_indexedD(4))

lemma swap_slots_eq:
  assumes hi: "heap_indexed heap index n" and a: "a < n" and b: "b < n"
  shows "swap_slots heap index a b = Some (swap_heap heap a b, swap_index heap index a b)"
proof -
  note d = heap_indexedD [OF hi]
  show ?thesis
  proof (cases "a = b")
    case True
    then show ?thesis using a d
      by (simp add: swap_slots_def Let_def swap_heap_def swap_index_def)
  next
    case False
    then show ?thesis using a b d
      by (simp add: swap_slots_def Let_def swap_heap_def swap_index_def)
  qed
qed

lemma swap_heap_nth:
  "a < length heap \<Longrightarrow> b < length heap \<Longrightarrow>
   swap_heap heap a b ! i = (if i = b then heap ! a else if i = a then heap ! b else heap ! i)"
  by (simp add: swap_heap_def nth_list_update)

lemma swap_index_nth:
  assumes hi: "heap_indexed heap index n" and a: "a < n" and b: "b < n" and r: "r < n"
  shows "swap_index heap index a b ! r
         = (if r = heap ! a then b else if r = heap ! b then a else index ! r)"
  using heap_indexedD [OF hi] a b r by (simp add: swap_index_def nth_list_update)

lemma swap_indexed:
  assumes hi: "heap_indexed heap index n" and a: "a < n" and b: "b < n"
  shows "heap_indexed (swap_heap heap a b) (swap_index heap index a b) n"
proof -
  note d = heap_indexedD [OF hi]
  have len: "length (swap_heap heap a b) = n" "length (swap_index heap index a b) = n"
    using d by (simp_all add: swap_heap_def swap_index_def)
  have h: "swap_heap heap a b ! i = (if i = b then heap ! a else if i = a then heap ! b else heap ! i)" for i
    using swap_heap_nth [of a heap b] a b d(1) by simp
  have x: "swap_index heap index a b ! r
         = (if r = heap ! a then b else if r = heap ! b then a else index ! r)" if "r < n" for r
    using swap_index_nth [OF hi a b that] .
  have ab: "heap ! b = heap ! a \<longleftrightarrow> b = a"
    using heap_indexed_inj [OF hi b a] by auto
  have 1: "swap_heap heap a b ! i < n" if "i < n" for i
    using that a b d(3) by (simp add: h)
  have 2: "swap_index heap index a b ! (swap_heap heap a b ! i) = i" if "i < n" for i
  proof -
    have "heap ! i = heap ! a \<longleftrightarrow> i = a" "heap ! i = heap ! b \<longleftrightarrow> i = b"
      using heap_indexed_inj [OF hi that a] heap_indexed_inj [OF hi that b] by auto
    then show ?thesis
      using that a b d(3) d(4) ab by (auto simp add: h x)
  qed
  have 3: "swap_index heap index a b ! r < n" if "r < n" for r
    using that a b d(5) by (simp add: x)
  have 4: "swap_heap heap a b ! (swap_index heap index a b ! r) = r" if "r < n" for r
  proof -
    have "index ! r = a \<longleftrightarrow> r = heap ! a" "index ! r = b \<longleftrightarrow> r = heap ! b"
      using d(4) [OF a] d(4) [OF b] d(6) [OF that] by auto
    then show ?thesis
      using that a b d(6) ab by (auto simp add: h x)
  qed
  show ?thesis
    unfolding heap_indexed_def using len 1 2 3 4 by simp
qed


lemma score_at_indexed:
  "heap_indexed heap index n \<Longrightarrow> length score = n \<Longrightarrow> i < n
   \<Longrightarrow> score_at heap score i = Some (score ! (heap ! i))"
  by (simp add: score_at_def heap_indexedD)

lemma child_larger_indexed:
  "heap_indexed heap index n \<Longrightarrow> length score = n \<Longrightarrow> pos < n
   \<Longrightarrow> child_larger heap score pos c
       = Some (c < n \<and> score ! (heap ! pos) < score ! (heap ! c))"
  by (simp add: child_larger_def score_at_indexed heap_indexedD(1))

lemma right_larger_indexed:
  "heap_indexed heap index n \<Longrightarrow> length score = n \<Longrightarrow> l < r
   \<Longrightarrow> right_larger heap score l r
       = Some (r < n \<and> score ! (heap ! l) < score ! (heap ! r))"
  by (simp add: right_larger_def score_at_indexed heap_indexedD(1))

lemma sift_up_step:
  assumes hi: "heap_indexed heap index n" and len: "length score = n" and pos: "pos < n"
    and p: "par = (pos - 1) div 2"
  shows "sift_up heap index score pos =
           (if pos > 0 \<and> score ! (heap ! par) < score ! (heap ! pos)
            then sift_up (swap_heap heap pos par) (swap_index heap index pos par) score par
            else Some (heap, index))"
proof -
  have par: "par < n" using pos p by simp
  have su: "sift_up heap index score pos =
     (if pos > 0 then
        do { sparent \<leftarrow> score_at heap score par;
             spos \<leftarrow> score_at heap score pos;
             if sparent < spos then
               do { (heap', index') \<leftarrow> swap_slots heap index pos par;
                    sift_up heap' index' score par }
             else Some (heap, index) }
      else Some (heap, index))"
    unfolding p by (rule sift_up.simps)
  show ?thesis
    unfolding su
    by (simp add: score_at_indexed [OF hi len] pos par swap_slots_eq [OF hi pos par])
qed

lemma sift_down_step:
  assumes hi: "heap_indexed heap index n" and len: "length score = n" and pos: "pos < n"
    and l: "l = 2 * pos + 1" and r: "r = 2 * pos + 2"
  shows "sift_down heap index score pos =
           (if (l < n \<and> score ! (heap ! pos) < score ! (heap ! l))
               \<or> (r < n \<and> score ! (heap ! pos) < score ! (heap ! r))
            then if r < n \<and> score ! (heap ! l) < score ! (heap ! r)
                 then sift_down (swap_heap heap pos r) (swap_index heap index pos r) score r
                 else sift_down (swap_heap heap pos l) (swap_index heap index pos l) score l
            else Some (heap, index))"
proof -
  have lr: "l < r" using l r by simp
  have sd: "sift_down heap index score pos =
     do { a \<leftarrow> child_larger heap score pos l;
          b \<leftarrow> child_larger heap score pos r;
          if a \<or> b then
            do { right \<leftarrow> right_larger heap score l r;
                 if right then
                   do { (heap', index') \<leftarrow> swap_slots heap index pos r;
                        sift_down heap' index' score r }
                 else
                   do { (heap', index') \<leftarrow> swap_slots heap index pos l;
                        sift_down heap' index' score l } }
          else Some (heap, index) }"
    unfolding l r by (rule sift_down.simps)
  show ?thesis
  proof (cases "r < n")
    case True
    then have "l < n" using lr by simp
    then show ?thesis
      unfolding sd using True
      by (simp add: child_larger_indexed [OF hi len pos] right_larger_indexed [OF hi len lr]
                    swap_slots_eq [OF hi pos])
  next
    case False
    show ?thesis
    proof (cases "l < n")
      case True
      then show ?thesis
        unfolding sd using False
        by (simp add: child_larger_indexed [OF hi len pos] right_larger_indexed [OF hi len lr]
                      swap_slots_eq [OF hi pos])
    next
      case l': False
      then show ?thesis
        unfolding sd using False
        by (simp add: child_larger_indexed [OF hi len pos])
    qed
  qed
qed

lemma sift_up_indexed:
  "heap_indexed heap index n \<Longrightarrow> length score = n \<Longrightarrow> pos < n
   \<Longrightarrow> \<exists>heap' index'. sift_up heap index score pos = Some (heap', index')
         \<and> heap_indexed heap' index' n"
proof (induction pos arbitrary: heap index rule: less_induct)
  case (less pos)
  define par where "par = (pos - 1) div 2"
  note step = sift_up_step [OF less.prems par_def]
  show ?case
  proof (cases "pos > 0 \<and> score ! (heap ! par) < score ! (heap ! pos)")
    case False
    then show ?thesis
      using less.prems(1) by (auto simp add: step)
  next
    case True
    then have par: "par < pos" "par < n"
      using less.prems(3) unfolding par_def by auto
    from less.IH [OF par(1) swap_indexed [OF less.prems(1) less.prems(3) par(2)] less.prems(2) par(2)]
    show ?thesis
      using True by (auto simp add: step)
  qed
qed

lemma sift_down_indexed:
  "heap_indexed heap index n \<Longrightarrow> length score = n \<Longrightarrow> pos < n
   \<Longrightarrow> \<exists>heap' index'. sift_down heap index score pos = Some (heap', index')
         \<and> heap_indexed heap' index' n"
proof (induction "n - pos" arbitrary: heap index pos rule: less_induct)
  case less
  define l where "l = 2 * pos + 1"
  define r where "r = 2 * pos + 2"
  note step = sift_down_step [OF less.prems l_def r_def]
  let ?go = "(l < n \<and> score ! (heap ! pos) < score ! (heap ! l))
           \<or> (r < n \<and> score ! (heap ! pos) < score ! (heap ! r))"
  show ?case
  proof (cases ?go)
    case False
    then show ?thesis
      using less.prems(1) by (auto simp add: step)
  next
    case go: True
    then have l: "l < n" unfolding l_def r_def by auto
    show ?thesis
    proof (cases "r < n \<and> score ! (heap ! l) < score ! (heap ! r)")
      case True
      then have r: "r < n" by simp
      have "n - r < n - pos" using r unfolding r_def by simp
      from less.hyps [OF this swap_indexed [OF less.prems(1) less.prems(3) r] less.prems(2) r]
      show ?thesis
        using go True by (auto simp add: step)
    next
      case False
      have "n - l < n - pos" using l unfolding l_def by simp
      from less.hyps [OF this swap_indexed [OF less.prems(1) less.prems(3) l] less.prems(2) l]
      show ?thesis
        using go False by (auto simp add: step)
    qed
  qed
qed

lemma updateHeap_indexed:
  assumes "heap_indexed heap index n" "length score = n" "e < n"
  shows "\<exists>heap' index'. updateHeap heap e change index score = Some (heap', index')
         \<and> heap_indexed heap' index' n"
proof -
  have pos: "index ! e < n" "e < length index"
    using assms heap_indexedD by auto
  show ?thesis
    using sift_up_indexed [OF assms(1,2) pos(1)] sift_down_indexed [OF assms(1,2) pos(1)] pos(2)
    by (simp add: updateHeap_def)
qed

section \<open>The invariant and removeEdge\<close>

lemma engine_invD:
  assumes "engine_inv s"
  shows "0 < length (icf s)" "length (icp s) = length (icf s)" "length (edges s) = length (icf s)"
    "heap_indexed (forb_rank2edge s) (edge2forb_rank s) (length (icf s))"
    "heap_indexed (perm_rank2edge s) (edge2perm_rank s) (length (icf s))"
    "bundles_ok (edgeToBundle s) (edgeBundles s) (length (icf s))"
    "icf s ! 0 = Forbidden" "icp s ! 0 = Forbidden"
  using assms by (simp_all add: engine_inv_def)

lemma bundles_okD:
  assumes "bundles_ok toBundle bundles n"
  shows "length toBundle = n" "length bundles = n"
    "r < n \<Longrightarrow> toBundle ! r < n" "r < n \<Longrightarrow> toBundle ! r = 0 \<longleftrightarrow> r = 0"
    "b < n \<Longrightarrow> t \<in> set (bundles ! b) \<longleftrightarrow> t < n \<and> toBundle ! t = b"
  using assms by (auto simp: bundles_ok_def)

lemma removeEdgeRank_noop:
  assumes "rId = 0 \<or> (rId < length (icf s) \<and> icf s ! rId = Forbidden)
           \<or> (rId < length (icf s) \<and> rId < length (icp s) \<and> icp s ! rId = Forbidden)"
  shows "removeEdgeRank s rId = Some s"
  using assms by (auto simp: removeEdgeRank_def)

lemma removeEdgeRank_live:
  assumes inv: "engine_inv s" and r: "rId < length (icf s)" "rId \<noteq> 0"
    and live: "icf s ! rId \<noteq> Forbidden" "icp s ! rId \<noteq> Forbidden"
  shows "\<exists>fheap findex pheap pindex.
     updateHeap (forb_rank2edge s) rId Forbidden (edge2forb_rank s) ((icf s)[rId := Forbidden])
       = Some (fheap, findex)
     \<and> heap_indexed fheap findex (length (icf s))
     \<and> updateHeap (perm_rank2edge s) rId Forbidden (edge2perm_rank s) ((icp s)[rId := Forbidden])
       = Some (pheap, pindex)
     \<and> heap_indexed pheap pindex (length (icf s))
     \<and> removeEdgeRank s rId =
         Some (s\<lparr>icf := (icf s)[rId := Forbidden], icp := (icp s)[rId := Forbidden],
                 forb_rank2edge := fheap, edge2forb_rank := findex,
                 perm_rank2edge := pheap, edge2perm_rank := pindex,
                 unprocessed := unprocessed s - 1\<rparr>)"
proof -
  note d = engine_invD [OF inv]
  obtain fheap findex where
    f: "updateHeap (forb_rank2edge s) rId Forbidden (edge2forb_rank s) ((icf s)[rId := Forbidden])
          = Some (fheap, findex)" "heap_indexed fheap findex (length (icf s))"
    using updateHeap_indexed [OF d(4) _ r(1), of "(icf s)[rId := Forbidden]" Forbidden] by auto
  obtain pheap pindex where
    p: "updateHeap (perm_rank2edge s) rId Forbidden (edge2perm_rank s) ((icp s)[rId := Forbidden])
          = Some (pheap, pindex)" "heap_indexed pheap pindex (length (icf s))"
    using updateHeap_indexed [OF d(5) _ r(1), of "(icp s)[rId := Forbidden]" Forbidden] d(2) by auto
  have "removeEdgeRank s rId =
         Some (s\<lparr>icf := (icf s)[rId := Forbidden], icp := (icp s)[rId := Forbidden],
                 forb_rank2edge := fheap, edge2forb_rank := findex,
                 perm_rank2edge := pheap, edge2perm_rank := pindex,
                 unprocessed := unprocessed s - 1\<rparr>)"
    using r live d(2) by (simp add: removeEdgeRank_def f(1) p(1))
  with f p show ?thesis by blast
qed

lemma engine_inv_heaps:
  assumes "engine_inv s"
    and "heap_indexed fheap findex (length (icf s))"
    and "heap_indexed pheap pindex (length (icf s))"
    and "length icf' = length (icf s)" "length icp' = length (icf s)"
    and "icf' ! 0 = Forbidden" "icp' ! 0 = Forbidden"
  shows "engine_inv (s\<lparr>icf := icf', icp := icp',
                 forb_rank2edge := fheap, edge2forb_rank := findex,
                 perm_rank2edge := pheap, edge2perm_rank := pindex,
                 unprocessed := k\<rparr>)"
  using assms by (simp add: engine_inv_def)

lemma removeEdgeRank_inv:
  assumes inv: "engine_inv s" and rm: "removeEdgeRank s rId = Some s'"
  shows "engine_inv s'"
    and "graph_ref s' = graph_ref s" and "length (icf s') = length (icf s)"
    and "edgeToBundle s' = edgeToBundle s" and "edgeBundles s' = edgeBundles s"
    and "edges s' = edges s" and "cout s' = cout s"
proof -
  note d = engine_invD [OF inv]
  have all: "engine_inv s' \<and> graph_ref s' = graph_ref s \<and> length (icf s') = length (icf s)
     \<and> edgeToBundle s' = edgeToBundle s \<and> edgeBundles s' = edgeBundles s
     \<and> edges s' = edges s \<and> cout s' = cout s"
  proof (cases "rId \<noteq> 0 \<and> rId < length (icf s) \<and> icf s ! rId \<noteq> Forbidden \<and> icp s ! rId \<noteq> Forbidden")
    case True
    then obtain fheap findex pheap pindex where
      h: "heap_indexed fheap findex (length (icf s))" "heap_indexed pheap pindex (length (icf s))"
      and s': "removeEdgeRank s rId =
         Some (s\<lparr>icf := (icf s)[rId := Forbidden], icp := (icp s)[rId := Forbidden],
                 forb_rank2edge := fheap, edge2forb_rank := findex,
                 perm_rank2edge := pheap, edge2perm_rank := pindex,
                 unprocessed := unprocessed s - 1\<rparr>)"
      using removeEdgeRank_live [OF inv, of rId] by blast
    have "engine_inv (s\<lparr>icf := (icf s)[rId := Forbidden], icp := (icp s)[rId := Forbidden],
                 forb_rank2edge := fheap, edge2forb_rank := findex,
                 perm_rank2edge := pheap, edge2perm_rank := pindex,
                 unprocessed := unprocessed s - 1\<rparr>)"
      using True d by (intro engine_inv_heaps [OF inv h]) simp_all
    then show ?thesis using s' rm by auto
  next
    case False
    have "rId < length (icf s) \<or> rId = 0"
    proof (rule ccontr)
      assume "\<not> (rId < length (icf s) \<or> rId = 0)"
      then have "removeEdgeRank s rId = None" by (simp add: removeEdgeRank_def)
      with rm show False by simp
    qed
    then have "removeEdgeRank s rId = Some s"
      using False d(2) by (intro removeEdgeRank_noop) auto
    then show ?thesis using rm inv by simp
  qed
  then show "engine_inv s'"
    and "graph_ref s' = graph_ref s" and "length (icf s') = length (icf s)"
    and "edgeToBundle s' = edgeToBundle s" and "edgeBundles s' = edgeBundles s"
    and "edges s' = edges s" and "cout s' = cout s"
    by simp_all
qed

section \<open>increaseIcf and increaseIcp\<close>

lemma std_max_not_less: "\<not> std_max a (Fin 0) < Fin 0"
  by (cases a) (simp_all add: std_max_def)

lemma std_max_nonneg: "a \<noteq> NaN \<Longrightarrow> Fin 0 \<le> std_max a (Fin 0)"
  by (cases a) (auto simp add: std_max_def less_eq_EdgeWeight_def)

lemma increaseIcf_live:
  assumes inv: "engine_inv s"
    and r: "0 < findIndex (graph_ref s) e" "findIndex (graph_ref s) e < length (icf s)"
    and w: "w \<noteq> Fin 0"
    and eb: "eb = edgeToBundle s ! findIndex (graph_ref s) e"
    and live: "Fin 0 \<le> icf s ! eb"
    and v: "v = std_max (icf s ! eb + w) (Fin 0)"
  shows "\<exists>heap' index'.
     updateHeap (forb_rank2edge s) eb w (edge2forb_rank s) ((icf s)[eb := v]) = Some (heap', index')
     \<and> heap_indexed heap' index' (length (icf s))
     \<and> increaseIcf s e w =
         Some (s\<lparr>icf := (icf s)[eb := v], forb_rank2edge := heap', edge2forb_rank := index'\<rparr>)"
proof -
  note d = engine_invD [OF inv]
  note b = bundles_okD [OF d(6)]
  have ebn: "eb < length (icf s)" using b(3) [OF r(2)] eb by simp
  obtain heap' index' where
    h: "updateHeap (forb_rank2edge s) eb w (edge2forb_rank s) ((icf s)[eb := v]) = Some (heap', index')"
       "heap_indexed heap' index' (length (icf s))"
    using updateHeap_indexed [OF d(4) _ ebn, of "(icf s)[eb := v]" w] by auto
  have "increaseIcf s e w =
         Some (s\<lparr>icf := (icf s)[eb := v], forb_rank2edge := heap', edge2forb_rank := index'\<rparr>)"
    using r w live ebn b(1) h(1) unfolding eb v by (simp add: increaseIcf_def Let_def)
  with h show ?thesis by blast
qed

lemma increaseIcf_noop:
  assumes "findIndex (graph_ref s) e = 0 \<or> w = Fin 0
         \<or> (findIndex (graph_ref s) e < length (edgeToBundle s)
             \<and> edgeToBundle s ! findIndex (graph_ref s) e < length (icf s)
             \<and> \<not> Fin 0 \<le> icf s ! (edgeToBundle s ! findIndex (graph_ref s) e))"
  shows "increaseIcf s e w = Some s"
  using assms by (auto simp: increaseIcf_def Let_def)

lemma increaseIcp_live:
  assumes inv: "engine_inv s"
    and r: "0 < findIndex (graph_ref s) e" "findIndex (graph_ref s) e < length (icf s)"
    and w: "w \<noteq> Fin 0"
    and eb: "eb = edgeToBundle s ! findIndex (graph_ref s) e"
    and live: "Fin 0 \<le> icp s ! eb"
    and v: "v = std_max (icp s ! eb + w) (Fin 0)"
  shows "\<exists>heap' index'.
     updateHeap (perm_rank2edge s) eb w (edge2perm_rank s) ((icp s)[eb := v]) = Some (heap', index')
     \<and> heap_indexed heap' index' (length (icf s))
     \<and> increaseIcp s e w =
         Some (s\<lparr>icp := (icp s)[eb := v], perm_rank2edge := heap', edge2perm_rank := index'\<rparr>)"
proof -
  note d = engine_invD [OF inv]
  note b = bundles_okD [OF d(6)]
  have ebn: "eb < length (icf s)" using b(3) [OF r(2)] eb by simp
  obtain heap' index' where
    h: "updateHeap (perm_rank2edge s) eb w (edge2perm_rank s) ((icp s)[eb := v]) = Some (heap', index')"
       "heap_indexed heap' index' (length (icf s))"
    using updateHeap_indexed [OF d(5) _ ebn, of "(icp s)[eb := v]" w] d(2) by auto
  have "increaseIcp s e w =
         Some (s\<lparr>icp := (icp s)[eb := v], perm_rank2edge := heap', edge2perm_rank := index'\<rparr>)"
    using r w live ebn b(1) h(1) d(2) unfolding eb v by (simp add: increaseIcp_def Let_def)
  with h show ?thesis by blast
qed

lemma increaseIcp_noop:
  assumes "findIndex (graph_ref s) e = 0 \<or> w = Fin 0
         \<or> (findIndex (graph_ref s) e < length (edgeToBundle s)
             \<and> edgeToBundle s ! findIndex (graph_ref s) e < length (icp s)
             \<and> \<not> Fin 0 \<le> icp s ! (edgeToBundle s ! findIndex (graph_ref s) e))"
  shows "increaseIcp s e w = Some s"
  using assms by (auto simp: increaseIcp_def Let_def)

text \<open>
  Claim C7. For an edge of non-zero rank whose bundle has a live value (\<open>\<ge> 0\<close>) and a
  non-zero delta, \<^verbatim>\<open>increaseIcf\<close> (\<^verbatim>\<open>increaseIcp\<close>) succeeds and stores the sum clamped at 0
  in the entry of the bundle; the stored value is never below 0, and it is \<open>\<ge> 0\<close> whenever
  the sum is a number.
\<close>

theorem increase_clamped:
  assumes inv: "engine_inv s"
    and r: "0 < findIndex (graph_ref s) e" "findIndex (graph_ref s) e < length (icf s)"
    and w: "w \<noteq> Fin 0"
    and eb: "eb = edgeToBundle s ! findIndex (graph_ref s) e"
  shows "(Fin 0 \<le> icf s ! eb \<longrightarrow>
            (\<exists>s'. increaseIcf s e w = Some s'
                 \<and> icf s' = (icf s)[eb := std_max (icf s ! eb + w) (Fin 0)]
                 \<and> \<not> icf s' ! eb < Fin 0
                 \<and> (icf s ! eb + w \<noteq> NaN \<longrightarrow> Fin 0 \<le> icf s' ! eb)))
       \<and> (Fin 0 \<le> icp s ! eb \<longrightarrow>
            (\<exists>s'. increaseIcp s e w = Some s'
                 \<and> icp s' = (icp s)[eb := std_max (icp s ! eb + w) (Fin 0)]
                 \<and> \<not> icp s' ! eb < Fin 0
                 \<and> (icp s ! eb + w \<noteq> NaN \<longrightarrow> Fin 0 \<le> icp s' ! eb)))"
proof -
  note d = engine_invD [OF inv]
  have ebn: "eb < length (icf s)" "eb < length (icp s)"
    using bundles_okD(3) [OF d(6) r(2)] eb d(2) by simp_all
  show ?thesis
  proof (intro conjI impI)
    assume live: "Fin 0 \<le> icf s ! eb"
    from increaseIcf_live [OF inv r w eb live refl]
    show "\<exists>s'. increaseIcf s e w = Some s'
                 \<and> icf s' = (icf s)[eb := std_max (icf s ! eb + w) (Fin 0)]
                 \<and> \<not> icf s' ! eb < Fin 0
                 \<and> (icf s ! eb + w \<noteq> NaN \<longrightarrow> Fin 0 \<le> icf s' ! eb)"
      using ebn by (auto simp: std_max_not_less std_max_nonneg)
  next
    assume live: "Fin 0 \<le> icp s ! eb"
    from increaseIcp_live [OF inv r w eb live refl]
    show "\<exists>s'. increaseIcp s e w = Some s'
                 \<and> icp s' = (icp s)[eb := std_max (icp s ! eb + w) (Fin 0)]
                 \<and> \<not> icp s' ! eb < Fin 0
                 \<and> (icp s ! eb + w \<noteq> NaN \<longrightarrow> Fin 0 \<le> icp s' ! eb)"
      using ebn by (auto simp: std_max_not_less std_max_nonneg)
  qed
qed

theorem increase_clamped_witness:
  "map_option icf (then_increaseIcf (example_init 4 path_edges) (Edge 1 2) (Fin (- 9)))
     = Some [NInf, Fin 5, Fin 0, Fin 3]
   \<and> map_option icp (then_increaseIcp (example_init 4 path_edges) (Edge 1 2) (Fin 2))
     = Some [NInf, Fin 0, Fin 2, Fin 0]"
proof -
  define s where "s = the (example_init 4 path_edges)"
  have "example_init 4 path_edges \<noteq> None" by code_simp
  then have some: "example_init 4 path_edges = Some s" by (simp add: s_def)
  have inv: "engine_inv s" unfolding s_def by code_simp
  have r: "0 < findIndex (graph_ref s) (Edge 1 2)"
    "findIndex (graph_ref s) (Edge 1 2) < length (icf s)" unfolding s_def by code_simp+
  have eb: "2 = edgeToBundle s ! findIndex (graph_ref s) (Edge 1 2)" unfolding s_def by code_simp
  have cf: "icf s = [NInf, Fin 5, Fin 4, Fin 3]" unfolding s_def by code_simp
  have cp: "icp s = [NInf, Fin 0, Fin 0, Fin 0]" unfolding s_def by code_simp
  have w: "Fin (- 9) \<noteq> Fin 0" "Fin 2 \<noteq> Fin 0" by simp_all
  from increase_clamped [OF inv r w(1) eb] increase_clamped [OF inv r w(2) eb]
  show ?thesis
    by (auto simp add: some cf cp then_increaseIcf_def then_increaseIcp_def std_max_def
          less_eq_EdgeWeight_def)
qed

section \<open>Loops and the merge of two bundles\<close>

lemma for_each_append:
  "for_each body (xs @ ys) s = Option.bind (for_each body xs s) (for_each body ys)"
  by (induction xs arbitrary: s) (simp_all split: Option.bind_split)

lemma for_each_invariant:
  assumes "for_each body xs s = Some s'" and "P s"
    and "\<And>x t t'. x \<in> set xs \<Longrightarrow> P t \<Longrightarrow> body x t = Some t' \<Longrightarrow> P t'"
  shows "P s'"
  using assms
proof (induction xs arbitrary: s)
  case Nil
  then show ?case by simp
next
  case (Cons x xs)
  from Cons.prems(1) obtain t where t: "body x s = Some t" "for_each body xs t = Some s'"
    by (auto simp: Option.bind_eq_Some_conv)
  have "P t" using Cons.prems(3) [of x s t] Cons.prems(2) t(1) by simp
  then show ?case
    using Cons.prems(3) by (intro Cons.IH [OF t(2)]) auto
qed

lemma move_rank_loop:
  assumes "eb1 < length (edgeBundles s)" and "\<forall>t \<in> set ms. t < length (edgeToBundle s)"
  shows "for_each (move_rank eb1) ms s =
           Some (s\<lparr>edgeBundles := (edgeBundles s)[eb1 := edgeBundles s ! eb1 @ ms],
                   edgeToBundle := foldl (\<lambda>tb t. tb[t := eb1]) (edgeToBundle s) ms\<rparr>)"
  using assms
proof (induction ms arbitrary: s)
  case Nil
  then show ?case by simp
next
  case (Cons t ms)
  let ?s1 = "s\<lparr>edgeBundles := (edgeBundles s)[eb1 := edgeBundles s ! eb1 @ [t]],
               edgeToBundle := (edgeToBundle s)[t := eb1]\<rparr>"
  have step: "move_rank eb1 t s = Some ?s1"
    using Cons.prems by (simp add: move_rank_def)
  have "for_each (move_rank eb1) ms ?s1 =
          Some (?s1\<lparr>edgeBundles := (edgeBundles ?s1)[eb1 := edgeBundles ?s1 ! eb1 @ ms],
                   edgeToBundle := foldl (\<lambda>tb t. tb[t := eb1]) (edgeToBundle ?s1) ms\<rparr>)"
    using Cons.prems by (intro Cons.IH) simp_all
  then show ?case
    using Cons.prems(1) by (simp add: step)
qed

lemma length_foldl_update [simp]:
  "length (foldl (\<lambda>tb t. tb[t := (k::nat)]) xs ms) = length xs"
  by (induction ms arbitrary: xs) simp_all

lemma nth_foldl_update:
  "r < length xs \<Longrightarrow>
   foldl (\<lambda>tb t. tb[t := (k::nat)]) xs ms ! r = (if r \<in> set ms then k else xs ! r)"
  by (induction ms arbitrary: xs) (auto simp: nth_list_update)

lemma bundles_ok_merge:
  assumes ok: "bundles_ok toBundle bundles n"
    and k: "keep < n" "keep \<noteq> 0" and d: "del < n" "del \<noteq> 0" and ne: "keep \<noteq> del"
  shows "bundles_ok (foldl (\<lambda>tb t. tb[t := keep]) toBundle (bundles ! del))
                    ((bundles[keep := bundles ! keep @ bundles ! del])[del := []]) n"
    and "r < n \<Longrightarrow> foldl (\<lambda>tb t. tb[t := keep]) toBundle (bundles ! del) ! r
                   = (if toBundle ! r = del then keep else toBundle ! r)"
proof -
  note b = bundles_okD [OF ok]
  let ?tb = "foldl (\<lambda>tb t. tb[t := keep]) toBundle (bundles ! del)"
  have nth: "?tb ! r = (if toBundle ! r = del then keep else toBundle ! r)" if "r < n" for r
    using that b(1) b(5) [OF d(1), of r] by (simp add: nth_foldl_update)
  show "r < n \<Longrightarrow> ?tb ! r = (if toBundle ! r = del then keep else toBundle ! r)"
    by (rule nth)
  show "bundles_ok ?tb ((bundles[keep := bundles ! keep @ bundles ! del])[del := []]) n"
    unfolding bundles_ok_def
  proof (intro conjI ballI)
    show "length ?tb = n" using b(1) by simp
    show "length ((bundles[keep := bundles ! keep @ bundles ! del])[del := []]) = n"
      using b(2) by simp
  next
    fix r assume "r \<in> {0..<n}"
    then have r: "r < n" by simp
    show "?tb ! r < n" using nth [OF r] b(3) [OF r] k(1) by simp
    show "?tb ! r = 0 \<longleftrightarrow> r = 0"
      using nth [OF r] b(4) [OF r] k(2) d(2) by auto
  next
    fix c assume "c \<in> {0..<n}"
    then have c: "c < n" by simp
    show "set ((bundles[keep := bundles ! keep @ bundles ! del])[del := []] ! c)
          = set (filter (\<lambda>t. ?tb ! t = c) [0..<n])"
    proof (intro set_eqI iffI)
      fix t assume t: "t \<in> set ((bundles[keep := bundles ! keep @ bundles ! del])[del := []] ! c)"
      then have cd: "c \<noteq> del" using d(1) b(2) by (auto simp: nth_list_update)
      have "t < n \<and> (toBundle ! t = c \<or> (c = keep \<and> toBundle ! t = del))"
        using t cd k(1) d(1) c b(2) b(5) [of c t] b(5) [of del t]
        by (auto simp: nth_list_update split: if_splits)
      then show "t \<in> set (filter (\<lambda>t. ?tb ! t = c) [0..<n])"
        using nth [of t] cd by auto
    next
      fix t assume "t \<in> set (filter (\<lambda>t. ?tb ! t = c) [0..<n])"
      then have t: "t < n" "?tb ! t = c" by auto
      then have "c \<noteq> del" using nth [OF t(1)] ne by (auto split: if_splits)
      moreover have "toBundle ! t = c \<or> (c = keep \<and> toBundle ! t = del)"
        using nth [OF t(1)] t(2) by (auto split: if_splits)
      ultimately show "t \<in> set ((bundles[keep := bundles ! keep @ bundles ! del])[del := []] ! c)"
        using t(1) k(1) d(1) c b(2) b(5) [of c t] b(5) [of del t]
        by (auto simp: nth_list_update)
    qed
  qed
qed

lemma removeEdgeRank_cases:
  assumes inv: "engine_inv s" and r: "rId < length (icf s)"
    and live: "live \<longleftrightarrow> rId \<noteq> 0 \<and> icf s ! rId \<noteq> Forbidden \<and> icp s ! rId \<noteq> Forbidden"
  shows "\<exists>s'. removeEdgeRank s rId = Some s'
           \<and> icf s' = (if live then (icf s)[rId := Forbidden] else icf s)
           \<and> icp s' = (if live then (icp s)[rId := Forbidden] else icp s)
           \<and> unprocessed s' = (if live then unprocessed s - 1 else unprocessed s)"
proof (cases live)
  case True
  with removeEdgeRank_live [OF inv r] live show ?thesis by fastforce
next
  case False
  then have "removeEdgeRank s rId = Some s"
    using live r engine_invD(2) [OF inv] by (intro removeEdgeRank_noop) auto
  with False show ?thesis by simp
qed

lemma merge_tables_fields:
  "graph_ref (merge_tables s keep del) = graph_ref s"
  "edges (merge_tables s keep del) = edges s"
  "unprocessed (merge_tables s keep del) = unprocessed s"
  "forb_rank2edge (merge_tables s keep del) = forb_rank2edge s"
  "perm_rank2edge (merge_tables s keep del) = perm_rank2edge s"
  "edge2forb_rank (merge_tables s keep del) = edge2forb_rank s"
  "edge2perm_rank (merge_tables s keep del) = edge2perm_rank s"
  "edgeBundles (merge_tables s keep del) =
     ((edgeBundles s)[keep := edgeBundles s ! keep @ edgeBundles s ! del])[del := []]"
  "edgeToBundle (merge_tables s keep del) =
     foldl (\<lambda>tb t. tb[t := keep]) (edgeToBundle s) (edgeBundles s ! del)"
  "icf (merge_tables s keep del) =
     (if icf s ! del < Fin 0 then icf s else (icf s)[keep := icf s ! keep + icf s ! del])"
  "icp (merge_tables s keep del) =
     (if icp s ! del < Fin 0 then icp s else (icp s)[keep := icp s ! keep + icp s ! del])"
  "cout (merge_tables s keep del) =
     cout s @ (if icf s ! del < Fin 0 then [''Merged edge has negative icf''] else [])
            @ (if icp s ! del < Fin 0 then [''Merged edge has negative icp''] else [])"
  by (simp_all add: merge_tables_def Let_def)

lemma merge_into_eq:
  assumes inv: "engine_inv s"
    and k: "keep < length (icf s)" and d: "del < length (icf s)" and ne: "keep \<noteq> del"
  shows "merge_into s keep del = removeEdgeRank (merge_tables s keep del) del"
proof -
  note i = engine_invD [OF inv]
  note b = bundles_okD [OF i(6)]
  have loop: "for_each (move_rank keep) (edgeBundles s ! del) s =
           Some (s\<lparr>edgeBundles := (edgeBundles s)[keep := edgeBundles s ! keep @ edgeBundles s ! del],
                   edgeToBundle := foldl (\<lambda>tb t. tb[t := keep]) (edgeToBundle s) (edgeBundles s ! del)\<rparr>)"
    using b(1) b(2) b(5) [OF d] k by (intro move_rank_loop) auto
  show ?thesis
    using k d b(2) i(2)
    by (simp add: merge_into_def loop merge_tables_def Let_def)
qed

lemma merge_tables_inv:
  assumes inv: "engine_inv s"
    and k: "keep < length (icf s)" "keep \<noteq> 0" and d: "del < length (icf s)" "del \<noteq> 0"
    and ne: "keep \<noteq> del"
  shows "engine_inv (merge_tables s keep del)"
proof -
  note i = engine_invD [OF inv]
  have "bundles_ok (edgeToBundle (merge_tables s keep del)) (edgeBundles (merge_tables s keep del))
          (length (icf s))"
    unfolding merge_tables_fields by (rule bundles_ok_merge(1) [OF i(6) k d ne])
  then show ?thesis
    using i k by (simp add: engine_inv_def merge_tables_fields)
qed

lemma mergeEdges_guard:
  "findIndex (graph_ref s) e1 AND findIndex (graph_ref s) e2 = 0 \<Longrightarrow> mergeEdges s e1 e2 = Some s"
  by (simp add: mergeEdges_def Let_def)

lemma mergeEdges_same_bundle:
  assumes "findIndex (graph_ref s) e1 < length (edgeToBundle s)"
    and "findIndex (graph_ref s) e2 < length (edgeToBundle s)"
    and "edgeToBundle s ! findIndex (graph_ref s) e1 = edgeToBundle s ! findIndex (graph_ref s) e2"
  shows "mergeEdges s e1 e2 = Some s"
  using assms by (simp add: mergeEdges_def Let_def)

lemma and_nonzero: "(a::nat) AND b \<noteq> 0 \<Longrightarrow> a \<noteq> 0 \<and> b \<noteq> 0"
  by (metis and_zero_eq zero_and_eq)

lemma mergeEdges_eq:
  assumes inv: "engine_inv s"
    and r: "findIndex (graph_ref s) e1 < length (icf s)" "findIndex (graph_ref s) e2 < length (icf s)"
    and g: "findIndex (graph_ref s) e1 AND findIndex (graph_ref s) e2 \<noteq> 0"
    and eb: "eb1 = edgeToBundle s ! findIndex (graph_ref s) e1"
            "eb2 = edgeToBundle s ! findIndex (graph_ref s) e2"
    and ne: "eb1 \<noteq> eb2"
    and kd: "keep = (if length (edgeBundles s ! eb1) > length (edgeBundles s ! eb2) then eb1 else eb2)"
            "del = (if length (edgeBundles s ! eb1) > length (edgeBundles s ! eb2) then eb2 else eb1)"
  shows "mergeEdges s e1 e2 = removeEdgeRank (merge_tables s keep del) del"
    and "keep < length (icf s)" and "keep \<noteq> 0" and "del < length (icf s)" and "del \<noteq> 0"
    and "keep \<noteq> del"
proof -
  note i = engine_invD [OF inv]
  note b = bundles_okD [OF i(6)]
  have nz: "findIndex (graph_ref s) e1 \<noteq> 0" "findIndex (graph_ref s) e2 \<noteq> 0"
    using and_nonzero [OF g] by simp_all
  have e1: "eb1 < length (icf s)" "eb1 \<noteq> 0"
    using b(3) [OF r(1)] b(4) [OF r(1)] nz eb by simp_all
  have e2: "eb2 < length (icf s)" "eb2 \<noteq> 0"
    using b(3) [OF r(2)] b(4) [OF r(2)] nz eb by simp_all
  show k: "keep < length (icf s)" and "keep \<noteq> 0" and d: "del < length (icf s)" and "del \<noteq> 0"
    and kne: "keep \<noteq> del"
    using e1 e2 ne kd by simp_all
  have "mergeEdges s e1 e2 = merge_into s keep del"
    using g r b(1) b(2) e1 e2 ne eb kd by (simp add: mergeEdges_def Let_def)
  then show "mergeEdges s e1 e2 = removeEdgeRank (merge_tables s keep del) del"
    by (simp add: merge_into_eq [OF inv k d kne])
qed

text \<open>
  What a merge does, when the guard on the ranks passes and the two bundles differ: the
  members of the absorbed bundle are moved to the surviving one, the two values of the
  surviving bundle are the sums (or stay as they are, with a line printed, when the absorbed
  value is negative), and the entry of the absorbed bundle is removed.
\<close>

lemma mergeEdges_merges:
  assumes inv: "engine_inv s"
    and r: "findIndex (graph_ref s) e1 < length (icf s)" "findIndex (graph_ref s) e2 < length (icf s)"
    and g: "findIndex (graph_ref s) e1 AND findIndex (graph_ref s) e2 \<noteq> 0"
    and eb: "eb1 = edgeToBundle s ! findIndex (graph_ref s) e1"
            "eb2 = edgeToBundle s ! findIndex (graph_ref s) e2"
    and ne: "eb1 \<noteq> eb2"
    and kd: "keep = (if length (edgeBundles s ! eb1) > length (edgeBundles s ! eb2) then eb1 else eb2)"
            "del = (if length (edgeBundles s ! eb1) > length (edgeBundles s ! eb2) then eb2 else eb1)"
  shows "\<exists>s'. mergeEdges s e1 e2 = Some s' \<and> engine_inv s'
           \<and> graph_ref s' = graph_ref s \<and> length (icf s') = length (icf s)
           \<and> edgeBundles s' =
               ((edgeBundles s)[keep := edgeBundles s ! keep @ edgeBundles s ! del])[del := []]
           \<and> (\<forall>t < length (icf s). edgeToBundle s' ! t =
                 (if edgeToBundle s ! t = del then keep else edgeToBundle s ! t))
           \<and> icf s' ! keep =
               (if icf s ! del < Fin 0 then icf s ! keep else icf s ! keep + icf s ! del)
           \<and> icp s' ! keep =
               (if icp s ! del < Fin 0 then icp s ! keep else icp s ! keep + icp s ! del)
           \<and> cout s' =
               cout s @ (if icf s ! del < Fin 0 then [''Merged edge has negative icf''] else [])
                      @ (if icp s ! del < Fin 0 then [''Merged edge has negative icp''] else [])
           \<and> (icf s ! del \<noteq> Forbidden \<and> icp s ! del \<noteq> Forbidden \<longrightarrow>
                 icf s' ! del = Forbidden \<and> icp s' ! del = Forbidden
                 \<and> unprocessed s' = unprocessed s - 1)"
proof -
  note m = mergeEdges_eq [OF inv r g eb ne kd]
  note i = engine_invD [OF inv]
  let ?t = "merge_tables s keep del"
  have tinv: "engine_inv ?t"
    by (rule merge_tables_inv [OF inv m(2) m(3) m(4) m(5) m(6)])
  have tlen: "length (icf ?t) = length (icf s)" "length (icp ?t) = length (icf s)"
    using i(2) by (simp_all add: merge_tables_fields)
  have tdel: "icf ?t ! del = icf s ! del" "icp ?t ! del = icp s ! del"
    using m(6) by (simp_all add: merge_tables_fields)
  define live where "live \<longleftrightarrow> del \<noteq> 0 \<and> icf ?t ! del \<noteq> Forbidden \<and> icp ?t ! del \<noteq> Forbidden"
  from removeEdgeRank_cases [OF tinv _ live_def] m(4) tlen
  obtain s' where s': "removeEdgeRank ?t del = Some s'"
    and f: "icf s' = (if live then (icf ?t)[del := Forbidden] else icf ?t)"
    and p: "icp s' = (if live then (icp ?t)[del := Forbidden] else icp ?t)"
    and u: "unprocessed s' = (if live then unprocessed ?t - 1 else unprocessed ?t)"
    by auto
  note rest = removeEdgeRank_inv [OF tinv s']
  have keepf: "icf s' ! keep = icf ?t ! keep" "icp s' ! keep = icp ?t ! keep"
    using f p m(6) by (simp_all)
  have "mergeEdges s e1 e2 = Some s'" using m(1) s' by simp
  moreover have "engine_inv s'" by (rule rest(1))
  moreover have "graph_ref s' = graph_ref s" "length (icf s') = length (icf s)"
    using rest(2,3) tlen by (simp_all add: merge_tables_fields)
  moreover have "edgeBundles s' =
               ((edgeBundles s)[keep := edgeBundles s ! keep @ edgeBundles s ! del])[del := []]"
    using rest(5) by (simp add: merge_tables_fields)
  moreover have "\<forall>t < length (icf s). edgeToBundle s' ! t =
                 (if edgeToBundle s ! t = del then keep else edgeToBundle s ! t)"
    using rest(4) bundles_ok_merge(2) [OF i(6) m(2) m(3) m(4) m(5) m(6)]
    by (simp add: merge_tables_fields)
  moreover have "icf s' ! keep =
               (if icf s ! del < Fin 0 then icf s ! keep else icf s ! keep + icf s ! del)"
    using keepf(1) m(2) by (simp add: merge_tables_fields)
  moreover have "icp s' ! keep =
               (if icp s ! del < Fin 0 then icp s ! keep else icp s ! keep + icp s ! del)"
    using keepf(2) m(2) i(2) by (simp add: merge_tables_fields)
  moreover have "cout s' =
               cout s @ (if icf s ! del < Fin 0 then [''Merged edge has negative icf''] else [])
                      @ (if icp s ! del < Fin 0 then [''Merged edge has negative icp''] else [])"
    using rest(7) by (simp add: merge_tables_fields)
  moreover have "icf s ! del \<noteq> Forbidden \<and> icp s ! del \<noteq> Forbidden \<longrightarrow>
                 icf s' ! del = Forbidden \<and> icp s' ! del = Forbidden
                 \<and> unprocessed s' = unprocessed s - 1"
    using f p u m(4) m(5) tlen tdel by (simp add: live_def merge_tables_fields(3))
  ultimately show ?thesis by blast
qed

section \<open>initInducedCosts\<close>

lemma for_each_total:
  assumes "I s"
    and "\<And>x t. x \<in> set xs \<Longrightarrow> I t \<Longrightarrow> \<exists>t'. body x t = Some t' \<and> I t'"
  shows "\<exists>s'. for_each body xs s = Some s' \<and> I s'"
  using assms
proof (induction xs arbitrary: s)
  case Nil
  then show ?case by simp
next
  case (Cons x xs)
  from Cons.prems(2) [of x s] Cons.prems(1)
  obtain t where t: "body x s = Some t" "I t" by auto
  from Cons.IH [OF t(2)] Cons.prems(2)
  obtain s' where "for_each body xs t = Some s'" "I s'" by auto
  then show ?case using t(1) by simp
qed

lemma init_frame_ctor: "init_frame g (1 + numEdges g) (EdgeHeap_ctor g)"
  by (simp add: init_frame_def EdgeHeap_ctor_def)

text \<open>One triangle changes the two entries of the rank and nothing else.\<close>

lemma add_triangle_result:
  assumes "rId < length (icf s)" "rId < length (icp s)"
  shows "add_triangle kf kp u v rId w s =
           Some (s\<lparr>icf := (icf s)[rId := icf s ! rId
                       + kf (getWeight (graph_ref s) (Edge u w)) (getWeight (graph_ref s) (Edge v w))],
                   icp := (icp s)[rId := icp s ! rId
                       + kp (getWeight (graph_ref s) (Edge u w)) (getWeight (graph_ref s) (Edge v w))]\<rparr>)"
  using assms by (simp add: add_triangle_def Let_def)

lemma add_triangle_loop:
  assumes "rId < length (icf s)" "rId < length (icp s)"
  shows "for_each (add_triangle kf kp u v rId) ws s =
           Some (s\<lparr>icf := (icf s)[rId :=
                     foldl (\<lambda>a w. a + kf (getWeight (graph_ref s) (Edge u w))
                                        (getWeight (graph_ref s) (Edge v w))) (icf s ! rId) ws],
                   icp := (icp s)[rId :=
                     foldl (\<lambda>a w. a + kp (getWeight (graph_ref s) (Edge u w))
                                        (getWeight (graph_ref s) (Edge v w))) (icp s ! rId) ws]\<rparr>)"
  using assms
proof (induction ws arbitrary: s)
  case Nil
  then show ?case by simp
next
  case (Cons w ws)
  let ?s1 = "s\<lparr>icf := (icf s)[rId := icf s ! rId
                       + kf (getWeight (graph_ref s) (Edge u w)) (getWeight (graph_ref s) (Edge v w))],
               icp := (icp s)[rId := icp s ! rId
                       + kp (getWeight (graph_ref s) (Edge u w)) (getWeight (graph_ref s) (Edge v w))]\<rparr>"
  have step: "add_triangle kf kp u v rId w s = Some ?s1"
    by (rule add_triangle_result [OF Cons.prems])
  have "for_each (add_triangle kf kp u v rId) ws ?s1 =
           Some (?s1\<lparr>icf := (icf ?s1)[rId :=
                     foldl (\<lambda>a w. a + kf (getWeight (graph_ref ?s1) (Edge u w))
                                        (getWeight (graph_ref ?s1) (Edge v w))) (icf ?s1 ! rId) ws],
                   icp := (icp ?s1)[rId :=
                     foldl (\<lambda>a w. a + kp (getWeight (graph_ref ?s1) (Edge u w))
                                        (getWeight (graph_ref ?s1) (Edge v w))) (icp ?s1 ! rId) ws]\<rparr>)"
    using Cons.prems by (intro Cons.IH) simp_all
  then show ?case
    using Cons.prems by (simp add: step)
qed

lemma zero_plus_weight [simp]: "Fin 0 + w = w"
  by (cases w) simp_all

lemma not_le_zero_iff: "w \<noteq> NaN \<Longrightarrow> \<not> Fin 0 \<le> w \<longleftrightarrow> w < Fin 0"
  by (cases w) (auto simp: less_eq_EdgeWeight_def)

text \<open>The body of the loop over the edges, case by case.\<close>

lemma init_edge_skip:
  assumes "v < u \<or> findIndexId (graph_ref s) (edgeId (graph_ref s) (Edge u v)) = 0"
  shows "init_edge kf kp u v s = Some s"
  using assms by (auto simp: init_edge_def Let_def)

lemma init_edge_special:
  assumes "\<not> v < u" and "r = findIndexId (graph_ref s) (edgeId (graph_ref s) (Edge u v))"
    and "r \<noteq> 0" and "r < length (edges s)"
    and "\<not> plain_weight (getWeightRank (graph_ref s) r)"
  shows "init_edge kf kp u v s = Some (s\<lparr>edges := (edges s)[r := Edge u v]\<rparr>)"
  using assms by (auto simp: init_edge_def Let_def plain_weight_def)

lemma init_edge_costs:
  assumes "\<not> v < u" and r: "r = findIndexId (graph_ref s) (edgeId (graph_ref s) (Edge u v))"
    and "r \<noteq> 0" and "r < length (edges s)" "r < length (icf s)" "r < length (icp s)"
    and "plain_weight (getWeightRank (graph_ref s) r)"
  shows "init_edge kf kp u v s =
           Some (s\<lparr>edges := (edges s)[r := Edge u v],
                   unprocessed := unprocessed s + 1,
                   icf := (icf s)[r :=
                     foldl (\<lambda>a w. a + kf (getWeight (graph_ref s) (Edge u w))
                                        (getWeight (graph_ref s) (Edge v w)))
                       (if Fin 0 \<le> getWeightRank (graph_ref s) r
                        then getWeightRank (graph_ref s) r else Fin 0)
                       (set_intersection (getNonZeroNeighbours (graph_ref s) u)
                                         (getNonZeroNeighbours (graph_ref s) v))],
                   icp := (icp s)[r :=
                     foldl (\<lambda>a w. a + kp (getWeight (graph_ref s) (Edge u w))
                                        (getWeight (graph_ref s) (Edge v w)))
                       (if Fin 0 \<le> getWeightRank (graph_ref s) r
                        then Fin 0 else - getWeightRank (graph_ref s) r)
                       (set_intersection (getNonZeroNeighbours (graph_ref s) u)
                                         (getNonZeroNeighbours (graph_ref s) v))]\<rparr>)"
  using assms unfolding r
  by (cases "Fin 0 \<le> getWeightRank (graph_ref s)
                        (findIndexId (graph_ref s) (edgeId (graph_ref s) (Edge u v)))")
     (simp_all add: init_edge_def Let_def plain_weight_def add_triangle_loop)

lemma init_edge_tracked:
  assumes "\<not> v < u" and r: "r = findIndexId (graph_ref s) (edgeId (graph_ref s) (Edge u v))"
    and "r \<noteq> 0" and "r < length (edges s)" "r < length (icf s)" "r < length (icp s)"
    and "plain_weight (getWeightRank (graph_ref s) r)"
  shows "\<exists>a b. init_edge kf kp u v s =
           Some (s\<lparr>edges := (edges s)[r := Edge u v],
                   unprocessed := unprocessed s + 1,
                   icf := (icf s)[r := a], icp := (icp s)[r := b]\<rparr>)
          \<and> (getWeightRank (graph_ref s) r \<noteq> NaN \<longrightarrow>
               a = edge_icf kf (graph_ref s) u v (getWeightRank (graph_ref s) r)
             \<and> b = edge_icp kp (graph_ref s) u v (getWeightRank (graph_ref s) r))"
proof (intro exI conjI impI)
  show "init_edge kf kp u v s = Some (s\<lparr>edges := (edges s)[r := Edge u v],
                   unprocessed := unprocessed s + 1,
                   icf := (icf s)[r :=
                     foldl (\<lambda>a w. a + kf (getWeight (graph_ref s) (Edge u w))
                                        (getWeight (graph_ref s) (Edge v w)))
                       (if Fin 0 \<le> getWeightRank (graph_ref s) r
                        then getWeightRank (graph_ref s) r else Fin 0)
                       (set_intersection (getNonZeroNeighbours (graph_ref s) u)
                                         (getNonZeroNeighbours (graph_ref s) v))],
                   icp := (icp s)[r :=
                     foldl (\<lambda>a w. a + kp (getWeight (graph_ref s) (Edge u w))
                                        (getWeight (graph_ref s) (Edge v w)))
                       (if Fin 0 \<le> getWeightRank (graph_ref s) r
                        then Fin 0 else - getWeightRank (graph_ref s) r)
                       (set_intersection (getNonZeroNeighbours (graph_ref s) u)
                                         (getNonZeroNeighbours (graph_ref s) v))]\<rparr>)"
    by (rule init_edge_costs [OF assms])
next
  assume "getWeightRank (graph_ref s) r \<noteq> NaN"
  then show "foldl (\<lambda>a w. a + kp (getWeight (graph_ref s) (Edge u w))
                                        (getWeight (graph_ref s) (Edge v w)))
                       (if Fin 0 \<le> getWeightRank (graph_ref s) r
                        then Fin 0 else - getWeightRank (graph_ref s) r)
                       (set_intersection (getNonZeroNeighbours (graph_ref s) u)
                                         (getNonZeroNeighbours (graph_ref s) v))
           = edge_icp kp (graph_ref s) u v (getWeightRank (graph_ref s) r)"
    by (cases "getWeightRank (graph_ref s) r") (auto simp: edge_icp_def less_eq_EdgeWeight_def)
qed (simp add: edge_icf_def)

text \<open>What the body of the loop over the edges keeps, and where it fails.\<close>

lemma init_edge_frame:
  assumes f: "init_frame g n s" and r: "v < u \<or> visit_rank g (u, v) < n"
  shows "\<exists>s'. init_edge kf kp u v s = Some s' \<and> init_frame g n s'
           \<and> unprocessed s' = unprocessed s + (if tracked g (u, v) then 1 else 0)
           \<and> (\<forall>k. k \<noteq> visit_rank g (u, v) \<or> \<not> tracked g (u, v) \<longrightarrow>
                  icf s' ! k = icf s ! k \<and> icp s' ! k = icp s ! k)
           \<and> (tracked g (u, v) \<longrightarrow> edges s' ! visit_rank g (u, v) = Edge u v)
           \<and> (tracked g (u, v) \<longrightarrow> getWeightRank g (visit_rank g (u, v)) \<noteq> NaN \<longrightarrow>
                 icf s' ! visit_rank g (u, v)
                   = edge_icf kf g u v (getWeightRank g (visit_rank g (u, v)))
               \<and> icp s' ! visit_rank g (u, v)
                   = edge_icp kp g u v (getWeightRank g (visit_rank g (u, v))))"
proof -
  have g: "graph_ref s = g" and len: "length (icf s) = n" "length (icp s) = n" "length (edges s) = n"
    using f by (simp_all add: init_frame_def)
  define r where "r = visit_rank g (u, v)"
  have rr: "r = findIndexId (graph_ref s) (edgeId (graph_ref s) (Edge u v))"
    by (simp add: r_def visit_rank_def g)
  have rn: "\<not> v < u \<Longrightarrow> r < n" using r by (simp add: r_def)
  consider (skip) "v < u \<or> r = 0"
    | (special) "\<not> v < u" "r \<noteq> 0" "\<not> plain_weight (getWeightRank g r)"
    | (costs) "\<not> v < u" "r \<noteq> 0" "plain_weight (getWeightRank g r)"
    by blast
  then show ?thesis
  proof cases
    case skip
    then have "init_edge kf kp u v s = Some s"
      using rr by (intro init_edge_skip) simp
    moreover have "\<not> tracked g (u, v)"
      using skip by (auto simp: tracked_def r_def)
    ultimately show ?thesis using f by simp
  next
    case special
    have "init_edge kf kp u v s = Some (s\<lparr>edges := (edges s)[r := Edge u v]\<rparr>)"
      using special rn [OF special(1)] len g by (intro init_edge_special [OF _ rr]) simp_all
    moreover have "\<not> tracked g (u, v)"
      using special by (auto simp: tracked_def r_def)
    moreover have "init_frame g n (s\<lparr>edges := (edges s)[r := Edge u v]\<rparr>)"
      using f by (simp add: init_frame_def)
    ultimately show ?thesis by simp
  next
    case costs
    from init_edge_tracked [OF costs(1) rr costs(2), of kf kp] costs(3) rn [OF costs(1)] len g
    obtain a b where ab: "init_edge kf kp u v s =
           Some (s\<lparr>edges := (edges s)[r := Edge u v],
                   unprocessed := unprocessed s + 1,
                   icf := (icf s)[r := a], icp := (icp s)[r := b]\<rparr>)"
      and val: "getWeightRank g r \<noteq> NaN \<longrightarrow>
               a = edge_icf kf g u v (getWeightRank g r) \<and> b = edge_icp kp g u v (getWeightRank g r)"
      by auto
    have t: "tracked g (u, v)"
      using costs by (auto simp: tracked_def r_def)
    have "init_frame g n (s\<lparr>edges := (edges s)[r := Edge u v],
                   unprocessed := unprocessed s + 1,
                   icf := (icf s)[r := a], icp := (icp s)[r := b]\<rparr>)"
      using f costs(2) by (simp add: init_frame_def)
    then show ?thesis
      using ab val t rn [OF costs(1)] len by (simp add: r_def [symmetric])
  qed
qed

lemma for_each_upt:
  assumes "P 0 s"
    and "\<And>i t. i < n \<Longrightarrow> P i t \<Longrightarrow> \<exists>t'. body i t = Some t' \<and> P (Suc i) t'"
  shows "\<exists>s'. for_each body [0 ..< n] s = Some s' \<and> P n s'"
  using assms(2)
proof (induction n)
  case 0
  then show ?case using assms(1) by simp
next
  case (Suc n)
  from Suc.IH Suc.prems obtain t where t: "for_each body [0 ..< n] s = Some t" "P n t"
    by (metis less_Suc_eq)
  from Suc.prems [of n t] t(2) obtain t' where "body n t = Some t'" "P (Suc n) t'"
    by auto
  then show ?case
    using t(1) by (simp add: for_each_append)
qed

lemma set_sort_insert [simp]: "set (sort_insert cmp x ys) = insert x (set ys)"
  by (induction ys) auto

lemma length_sort_insert [simp]: "length (sort_insert cmp x ys) = Suc (length ys)"
  by (induction ys) auto

lemma set_std_sort [simp]: "set (std_sort cmp xs) = set xs"
  by (induction xs) (simp_all add: std_sort_def)

lemma length_std_sort [simp]: "length (std_sort cmp xs) = length xs"
  by (induction xs) (simp_all add: std_sort_def)

lemma distinct_std_sort_upt: "distinct (std_sort cmp [0 ..< n])"
  by (rule card_distinct) simp

lemma sort_by_score_upt:
  "length score = n \<Longrightarrow>
   sort_by_score score [0 ..< n] = Some (std_sort (\<lambda>a b. score ! b < score ! a) [0 ..< n])"
  by (simp add: sort_by_score_def list_all_iff)

text \<open>A permutation of the ranks with the slot of every entry recorded is an indexed heap.\<close>

lemma heap_indexed_perm:
  assumes "length heap = n" "length index = n" "set heap = {0 ..< n}"
    and ix: "\<And>i. i < n \<Longrightarrow> index ! (heap ! i) = i"
  shows "heap_indexed heap index n"
  unfolding heap_indexed_def
proof (intro conjI ballI)
  fix i assume "i \<in> {0 ..< n}"
  then have i: "i < n" by simp
  have "heap ! i \<in> set heap" using assms(1) i by simp
  then show "heap ! i < n" using assms(3) by simp
  show "index ! (heap ! i) = i" by (rule ix [OF i])
next
  fix r assume "r \<in> {0 ..< n}"
  then have "r \<in> set heap" using assms(3) by simp
  then obtain i where i: "i < n" "heap ! i = r"
    using assms(1) by (auto simp: in_set_conv_nth)
  then show "index ! r < n" "heap ! (index ! r) = r"
    using ix [OF i(1)] by simp_all
qed (use assms in simp_all)

lemma save_index_loop:
  assumes len: "length (edge2forb_rank s) = n" "length (edge2perm_rank s) = n"
    and f: "length (forb_rank2edge s) = n" "set (forb_rank2edge s) = {0 ..< n}"
           "distinct (forb_rank2edge s)"
    and p: "length (perm_rank2edge s) = n" "set (perm_rank2edge s) = {0 ..< n}"
           "distinct (perm_rank2edge s)"
  shows "\<exists>findex pindex.
           for_each save_index [0 ..< n] s
             = Some (s\<lparr>edge2forb_rank := findex, edge2perm_rank := pindex\<rparr>)
           \<and> heap_indexed (forb_rank2edge s) findex n
           \<and> heap_indexed (perm_rank2edge s) pindex n"
proof -
  define P where "P k t \<longleftrightarrow>
     (\<exists>fx px. t = s\<lparr>edge2forb_rank := fx, edge2perm_rank := px\<rparr>
         \<and> length fx = n \<and> length px = n
         \<and> (\<forall>i < k. fx ! (forb_rank2edge s ! i) = i)
         \<and> (\<forall>i < k. px ! (perm_rank2edge s ! i) = i))" for k t
  have P0: "P 0 s"
    unfolding P_def by (intro exI [of _ "edge2forb_rank s"] exI [of _ "edge2perm_rank s"])
      (simp add: len)
  have step: "\<exists>t'. save_index i t = Some t' \<and> P (Suc i) t'" if i: "i < n" and Pi: "P i t" for i t
  proof -
    from Pi obtain fx px where t: "t = s\<lparr>edge2forb_rank := fx, edge2perm_rank := px\<rparr>"
      and l: "length fx = n" "length px = n"
      and fi: "\<forall>j < i. fx ! (forb_rank2edge s ! j) = j"
      and pi: "\<forall>j < i. px ! (perm_rank2edge s ! j) = j"
      unfolding P_def by blast
    have fr: "forb_rank2edge s ! i < n" and pr: "perm_rank2edge s ! i < n"
      using f p i by (metis atLeastLessThan_iff nth_mem)+
    have fne: "forb_rank2edge s ! j \<noteq> forb_rank2edge s ! i" if "j < i" for j
      using f(1,3) i that by (simp add: nth_eq_iff_index_eq)
    have pne: "perm_rank2edge s ! j \<noteq> perm_rank2edge s ! i" if "j < i" for j
      using p(1,3) i that by (simp add: nth_eq_iff_index_eq)
    have sv: "save_index i t = Some (s\<lparr>edge2forb_rank := fx[forb_rank2edge s ! i := i],
                                        edge2perm_rank := px[perm_rank2edge s ! i := i]\<rparr>)"
      using i f(1) p(1) l fr pr by (simp add: save_index_def t)
    have f': "fx[forb_rank2edge s ! i := i] ! (forb_rank2edge s ! j) = j" if "j < Suc i" for j
    proof (cases "j = i")
      case True
      then show ?thesis using fr l by simp
    next
      case False
      then have "j < i" using that by simp
      then show ?thesis using fne [of j] fi by (simp add: nth_list_update)
    qed
    have p': "px[perm_rank2edge s ! i := i] ! (perm_rank2edge s ! j) = j" if "j < Suc i" for j
    proof (cases "j = i")
      case True
      then show ?thesis using pr l by simp
    next
      case False
      then have "j < i" using that by simp
      then show ?thesis using pne [of j] pi by (simp add: nth_list_update)
    qed
    have "P (Suc i) (s\<lparr>edge2forb_rank := fx[forb_rank2edge s ! i := i],
                       edge2perm_rank := px[perm_rank2edge s ! i := i]\<rparr>)"
      unfolding P_def
      by (intro exI [of _ "fx[forb_rank2edge s ! i := i]"] exI [of _ "px[perm_rank2edge s ! i := i]"]
            conjI allI impI refl f' p') (simp_all add: l)
    with sv show ?thesis by blast
  qed
  from for_each_upt [of P s n save_index, OF P0 step]
  obtain fx px where "for_each save_index [0 ..< n] s
             = Some (s\<lparr>edge2forb_rank := fx, edge2perm_rank := px\<rparr>)"
      and l: "length fx = n" "length px = n"
      and fi: "\<forall>i < n. fx ! (forb_rank2edge s ! i) = i"
      and pi: "\<forall>i < n. px ! (perm_rank2edge s ! i) = i"
    unfolding P_def by blast
  moreover have "heap_indexed (forb_rank2edge s) fx n"
    using f l fi by (intro heap_indexed_perm) simp_all
  moreover have "heap_indexed (perm_rank2edge s) px n"
    using p l pi by (intro heap_indexed_perm) simp_all
  ultimately show ?thesis by blast
qed

lemma init_bundle_loop:
  assumes len: "length (edgeToBundle s) = n" "length (edgeBundles s) = n"
    and e: "\<forall>r < n. edgeBundles s ! r = []"
  shows "for_each init_bundle [0 ..< n] s
           = Some (s\<lparr>edgeToBundle := [0 ..< n], edgeBundles := map (\<lambda>r. [r]) [0 ..< n]\<rparr>)"
proof -
  define P where "P k t \<longleftrightarrow>
     (\<exists>tb bs. t = s\<lparr>edgeToBundle := tb, edgeBundles := bs\<rparr>
         \<and> length tb = n \<and> length bs = n
         \<and> (\<forall>r < k. tb ! r = r \<and> bs ! r = [r])
         \<and> (\<forall>r < n. k \<le> r \<longrightarrow> bs ! r = []))" for k t
  have P0: "P 0 s"
    unfolding P_def by (intro exI [of _ "edgeToBundle s"] exI [of _ "edgeBundles s"])
      (simp add: len e)
  have step: "\<exists>t'. init_bundle i t = Some t' \<and> P (Suc i) t'" if i: "i < n" and Pi: "P i t" for i t
  proof -
    from Pi obtain tb bs where t: "t = s\<lparr>edgeToBundle := tb, edgeBundles := bs\<rparr>"
      and l: "length tb = n" "length bs = n"
      and dn: "\<forall>r < i. tb ! r = r \<and> bs ! r = [r]"
      and rest: "\<forall>r < n. i \<le> r \<longrightarrow> bs ! r = []"
      unfolding P_def by blast
    have bi: "bs ! i = []" using rest i by simp
    have ib: "init_bundle i t = Some (s\<lparr>edgeToBundle := tb[i := i], edgeBundles := bs[i := [i]]\<rparr>)"
      using i l bi by (simp add: init_bundle_def t)
    have d': "tb[i := i] ! r = r \<and> bs[i := [i]] ! r = [r]" if "r < Suc i" for r
      using that dn i l by (cases "r = i") (simp_all add: nth_list_update)
    have r': "bs[i := [i]] ! r = []" if "r < n" "Suc i \<le> r" for r
      using that rest by (simp add: nth_list_update)
    have "P (Suc i) (s\<lparr>edgeToBundle := tb[i := i], edgeBundles := bs[i := [i]]\<rparr>)"
      unfolding P_def
    proof (intro exI [of _ "tb[i := i]"] exI [of _ "bs[i := [i]]"] conjI allI impI refl)
      show "length (tb[i := i]) = n" "length (bs[i := [i]]) = n" using l by simp_all
      show "\<And>r. r < Suc i \<Longrightarrow> tb[i := i] ! r = r" using d' by simp
      show "\<And>r. r < Suc i \<Longrightarrow> bs[i := [i]] ! r = [r]" using d' by simp
      show "\<And>r. r < n \<Longrightarrow> Suc i \<le> r \<Longrightarrow> bs[i := [i]] ! r = []" using r' by simp
    qed
    with ib show ?thesis by blast
  qed
  from for_each_upt [of P s n init_bundle, OF P0 step]
  obtain tb bs where fe: "for_each init_bundle [0 ..< n] s
             = Some (s\<lparr>edgeToBundle := tb, edgeBundles := bs\<rparr>)"
      and l: "length tb = n" "length bs = n"
      and dn: "\<forall>r < n. tb ! r = r \<and> bs ! r = [r]"
    unfolding P_def by blast
  have "tb = [0 ..< n]"
    using l dn by (simp add: list_eq_iff_nth_eq)
  moreover have "bs = map (\<lambda>r. [r]) [0 ..< n]"
    using l dn by (simp add: list_eq_iff_nth_eq)
  ultimately show ?thesis using fe by simp
qed

lemma bundles_ok_init: "bundles_ok [0 ..< n] (map (\<lambda>r. [r]) [0 ..< n]) n"
  by (auto simp: bundles_ok_def)

lemma nan_sweep_total:
  assumes "\<forall>i \<in> set ixs. findIndexId g i < length icf_v \<and> findIndexId g i < length icp_v"
  shows "\<exists>out. nan_sweep g icf_v icp_v ixs = Some out"
  using assms by (induction ixs) auto

text \<open>
  The part of \<^verbatim>\<open>initInducedCosts\<close> after the loop over the edges: from a state of that
  loop it builds the two heaps, their indices and the bundles, and keeps the cost tables.
\<close>

lemma init_tail:
  assumes fr: "init_frame g n s1"
    and out: "nan_sweep g (icf s1) (icp s1) [0 ..< n] = Some out"
    and fh: "fheap = std_sort (\<lambda>a b. icf s1 ! b < icf s1 ! a) [0 ..< n]"
    and ph: "pheap = std_sort (\<lambda>a b. icp s1 ! b < icp s1 ! a) [0 ..< n]"
  shows "\<exists>findex pindex.
     init_finish s1
     = Some (s1\<lparr>cout := out, forb_rank2edge := fheap, perm_rank2edge := pheap,
               edge2forb_rank := findex, edge2perm_rank := pindex,
               edgeToBundle := [0 ..< n], edgeBundles := map (\<lambda>r. [r]) [0 ..< n]\<rparr>)
     \<and> heap_indexed fheap findex n \<and> heap_indexed pheap pindex n"
proof -
  have g: "graph_ref s1 = g" and n: "0 < n"
    and len: "length (icf s1) = n" "length (icp s1) = n" "length (edges s1) = n"
    and h0: "forb_rank2edge s1 = []" "perm_rank2edge s1 = []"
    and ix0: "edge2forb_rank s1 = replicate n 0" "edge2perm_rank s1 = replicate n 0"
    and b0: "edgeToBundle s1 = replicate n 0" "edgeBundles s1 = replicate n []"
    and c0: "cout s1 = []"
    using fr by (simp_all add: init_frame_def)
  let ?s3 = "s1\<lparr>cout := out, forb_rank2edge := fheap, perm_rank2edge := pheap\<rparr>"
  have "\<exists>findex pindex.
           for_each save_index [0 ..< n] ?s3
             = Some (?s3\<lparr>edge2forb_rank := findex, edge2perm_rank := pindex\<rparr>)
           \<and> heap_indexed (forb_rank2edge ?s3) findex n
           \<and> heap_indexed (perm_rank2edge ?s3) pindex n"
    by (rule save_index_loop) (simp_all add: ix0 fh ph distinct_std_sort_upt)
  then obtain findex pindex where
    sv: "for_each save_index [0 ..< n] ?s3
             = Some (?s3\<lparr>edge2forb_rank := findex, edge2perm_rank := pindex\<rparr>)"
    and hf: "heap_indexed fheap findex n" and hp: "heap_indexed pheap pindex n"
    by auto
  let ?s4 = "?s3\<lparr>edge2forb_rank := findex, edge2perm_rank := pindex\<rparr>"
  have ib: "for_each init_bundle [0 ..< n] ?s4
           = Some (?s4\<lparr>edgeToBundle := [0 ..< n], edgeBundles := map (\<lambda>r. [r]) [0 ..< n]\<rparr>)"
    by (rule init_bundle_loop) (simp_all add: b0)
  have "init_finish s1
     = Some (s1\<lparr>cout := out, forb_rank2edge := fheap, perm_rank2edge := pheap,
               edge2forb_rank := findex, edge2perm_rank := pindex,
               edgeToBundle := [0 ..< n], edgeBundles := map (\<lambda>r. [r]) [0 ..< n]\<rparr>)"
    using sv ib
    by (simp add: init_finish_def g len out h0 c0 Let_def sort_by_score_upt
          fh [symmetric] ph [symmetric])
  with hf hp show ?thesis by blast
qed

lemma for_each_map: "for_each body (map f xs) s = for_each (\<lambda>x. body (f x)) xs s"
proof (induction xs arbitrary: s)
  case Nil
  then show ?case by simp
next
  case (Cons a xs)
  have "for_each body (map f xs) = for_each (\<lambda>x. body (f x)) xs"
    using Cons.IH by (intro ext)
  then show ?case by simp
qed

lemma init_edge_in_range:
  assumes f: "init_frame g n s" and ok: "init_edge kf kp u v s = Some s'"
  shows "v < u \<or> visit_rank g (u, v) < n"
proof (rule ccontr)
  assume "\<not> (v < u \<or> visit_rank g (u, v) < n)"
  then have "init_edge kf kp u v s = None"
    using f by (simp add: init_edge_def Let_def init_frame_def visit_rank_def)
  with ok show False by simp
qed

text \<open>The loop over the edges as one loop over the visited pairs.\<close>

lemma visit_loop:
  assumes f: "init_frame g n s"
    and ok: "for_each (\<lambda>uv. init_edge kf kp (fst uv) (snd uv)) vs s = Some s'"
  shows "init_frame g n s'"
    and "unprocessed s' = unprocessed s + of_nat (length (filter (tracked g) vs))"
    and "\<forall>uv \<in> set vs. tracked g uv \<longrightarrow> visit_rank g uv \<noteq> k
         \<Longrightarrow> icf s' ! k = icf s ! k \<and> icp s' ! k = icp s ! k"
  using assms
proof (induction vs arbitrary: s)
  case Nil
  { case 1 then show ?case by simp }
  { case 2 then show ?case by simp }
  { case 3 then show ?case by simp }
next
  case (Cons x xs)
  { case 1
    from 1(2) obtain t where t: "init_edge kf kp (fst x) (snd x) s = Some t"
      "for_each (\<lambda>uv. init_edge kf kp (fst uv) (snd uv)) xs t = Some s'"
      by (auto simp: Option.bind_eq_Some_conv)
    from init_edge_frame [OF 1(1) init_edge_in_range [OF 1(1) t(1)], of kf kp] t(1)
    have "init_frame g n t" by auto
    then show ?case using Cons.IH(1) t(2) by blast }
  { case 2
    from 2(2) obtain t where t: "init_edge kf kp (fst x) (snd x) s = Some t"
      "for_each (\<lambda>uv. init_edge kf kp (fst uv) (snd uv)) xs t = Some s'"
      by (auto simp: Option.bind_eq_Some_conv)
    from init_edge_frame [OF 2(1) init_edge_in_range [OF 2(1) t(1)], of kf kp] t(1)
    have ft: "init_frame g n t"
      and u: "unprocessed t = unprocessed s + (if tracked g x then 1 else 0)" by auto
    from Cons.IH(2) [OF ft t(2)] u show ?case by simp }
  { case 3
    from 3(3) obtain t where t: "init_edge kf kp (fst x) (snd x) s = Some t"
      "for_each (\<lambda>uv. init_edge kf kp (fst uv) (snd uv)) xs t = Some s'"
      by (auto simp: Option.bind_eq_Some_conv)
    from init_edge_frame [OF 3(2) init_edge_in_range [OF 3(2) t(1)], of kf kp] t(1)
    have ft: "init_frame g n t"
      and keep: "\<forall>k. k \<noteq> visit_rank g x \<or> \<not> tracked g x \<longrightarrow>
                    icf t ! k = icf s ! k \<and> icp t ! k = icp s ! k" by auto
    have "icf t ! k = icf s ! k \<and> icp t ! k = icp s ! k"
      using keep 3(1) by auto
    moreover have "icf s' ! k = icf t ! k \<and> icp s' ! k = icp t ! k"
      using 3(1) by (intro Cons.IH(3) [OF _ ft t(2)]) simp
    ultimately show ?case by simp }
qed

lemma visit_loop_total:
  assumes f: "init_frame g n s" and r: "\<forall>uv \<in> set vs. visit_rank g uv < n"
  shows "\<exists>s'. for_each (\<lambda>uv. init_edge kf kp (fst uv) (snd uv)) vs s = Some s'"
proof -
  have "\<exists>s'. for_each (\<lambda>uv. init_edge kf kp (fst uv) (snd uv)) vs s = Some s' \<and> init_frame g n s'"
  proof (rule for_each_total [where I = "init_frame g n", OF f])
    fix x t assume "x \<in> set vs" "init_frame g n t"
    then show "\<exists>t'. init_edge kf kp (fst x) (snd x) t = Some t' \<and> init_frame g n t'"
      using init_edge_frame [of g n t "snd x" "fst x" kf kp] r by auto
  qed
  then show ?thesis by blast
qed

text \<open>The values of a tracked pair whose rank no other tracked pair has.\<close>

lemma visit_loop_target:
  assumes f: "init_frame g n s"
    and ok: "for_each (\<lambda>uv. init_edge kf kp (fst uv) (snd uv)) vs s = Some s'"
    and x: "(u, v) \<in> set vs" "tracked g (u, v)"
    and w: "getWeightRank g (visit_rank g (u, v)) \<noteq> NaN"
    and uq: "\<forall>uv \<in> set vs. tracked g uv \<longrightarrow> visit_rank g uv = visit_rank g (u, v) \<longrightarrow> uv = (u, v)"
  shows "icf s' ! visit_rank g (u, v) = edge_icf kf g u v (getWeightRank g (visit_rank g (u, v)))
       \<and> icp s' ! visit_rank g (u, v) = edge_icp kp g u v (getWeightRank g (visit_rank g (u, v)))"
  using f ok x(1) uq
proof (induction vs arbitrary: s)
  case Nil
  then show ?case by simp
next
  case (Cons y ys)
  from Cons.prems(2) obtain t where t: "init_edge kf kp (fst y) (snd y) s = Some t"
    "for_each (\<lambda>uv. init_edge kf kp (fst uv) (snd uv)) ys t = Some s'"
    by (auto simp: Option.bind_eq_Some_conv)
  note fr = init_edge_frame [OF Cons.prems(1) init_edge_in_range [OF Cons.prems(1) t(1)], of kf kp]
  from fr t(1) have ft: "init_frame g n t" by auto
  show ?case
  proof (cases "(u, v) \<in> set ys")
    case True
    then show ?thesis
      using Cons.IH [OF ft t(2)] Cons.prems(4) by simp
  next
    case False
    then have y: "y = (u, v)" using Cons.prems(3) by simp
    have tv: "icf t ! visit_rank g (u, v) = edge_icf kf g u v (getWeightRank g (visit_rank g (u, v)))
       \<and> icp t ! visit_rank g (u, v) = edge_icp kp g u v (getWeightRank g (visit_rank g (u, v)))"
      using fr t(1) x(2) w unfolding y by auto
    have "\<forall>uv \<in> set ys. tracked g uv \<longrightarrow> visit_rank g uv \<noteq> visit_rank g (u, v)"
      using Cons.prems(4) False by auto
    from visit_loop(3) [OF ft t(2) this] tv show ?thesis by simp
  qed
qed

lemma init_node_flat:
  assumes "init_frame g n s"
  shows "init_node kf kp u s =
           for_each (\<lambda>uv. init_edge kf kp (fst uv) (snd uv))
             (map (Pair u) (getNonZeroNeighbours g u)) s"
  using assms by (simp add: init_node_def init_frame_def for_each_map)

lemma cost_loop_flat:
  assumes "init_frame g n s"
  shows "for_each (init_node kf kp) us s =
           for_each (\<lambda>uv. init_edge kf kp (fst uv) (snd uv))
             (concat (map (\<lambda>u. map (Pair u) (getNonZeroNeighbours g u)) us)) s"
  using assms
proof (induction us arbitrary: s)
  case Nil
  then show ?case by simp
next
  case (Cons u us)
  have "Option.bind (for_each (\<lambda>uv. init_edge kf kp (fst uv) (snd uv))
             (map (Pair u) (getNonZeroNeighbours g u)) s) (for_each (init_node kf kp) us)
      = Option.bind (for_each (\<lambda>uv. init_edge kf kp (fst uv) (snd uv))
             (map (Pair u) (getNonZeroNeighbours g u)) s)
          (for_each (\<lambda>uv. init_edge kf kp (fst uv) (snd uv))
             (concat (map (\<lambda>u. map (Pair u) (getNonZeroNeighbours g u)) us)))"
  proof (rule Option.bind_cong [OF refl])
    fix t assume "for_each (\<lambda>uv. init_edge kf kp (fst uv) (snd uv))
             (map (Pair u) (getNonZeroNeighbours g u)) s = Some t"
    then have "init_frame g n t" by (rule visit_loop(1) [OF Cons.prems])
    then show "for_each (init_node kf kp) us t =
           for_each (\<lambda>uv. init_edge kf kp (fst uv) (snd uv))
             (concat (map (\<lambda>u. map (Pair u) (getNonZeroNeighbours g u)) us)) t"
      by (rule Cons.IH)
  qed
  then show ?case
    by (simp add: init_node_flat [OF Cons.prems] for_each_append)
qed

lemma initInducedCosts_split:
  "initInducedCosts kf kp s =
     Option.bind (for_each (init_node kf kp) [0 ..< numNodes (graph_ref s)] s) init_finish"
  unfolding initInducedCosts_def init_finish_def by (rule refl)

lemma initInducedCosts_visits:
  "initInducedCosts kf kp (EdgeHeap_ctor g) =
     Option.bind (for_each (\<lambda>uv. init_edge kf kp (fst uv) (snd uv)) (visits g) (EdgeHeap_ctor g))
       init_finish"
proof -
  have "graph_ref (EdgeHeap_ctor g) = g" by (simp add: EdgeHeap_ctor_def)
  then show ?thesis
    by (simp add: initInducedCosts_split cost_loop_flat [OF init_frame_ctor] visits_def)
qed

text \<open>
  The state that \<^verbatim>\<open>initInducedCosts\<close> returns, in terms of the state after its loop over
  the edges.
\<close>

lemma init_result:
  assumes ok: "initInducedCosts kf kp (EdgeHeap_ctor g) = Some s'" and n: "n = 1 + numEdges g"
  shows "\<exists>s1. for_each (\<lambda>uv. init_edge kf kp (fst uv) (snd uv)) (visits g) (EdgeHeap_ctor g) = Some s1
            \<and> init_frame g n s1
            \<and> icf s' = icf s1 \<and> icp s' = icp s1 \<and> unprocessed s' = unprocessed s1
            \<and> graph_ref s' = g
            \<and> edgeToBundle s' = [0 ..< n] \<and> edgeBundles s' = map (\<lambda>r. [r]) [0 ..< n]
            \<and> engine_inv s'"
proof -
  from ok obtain s1 where
    s1: "for_each (\<lambda>uv. init_edge kf kp (fst uv) (snd uv)) (visits g) (EdgeHeap_ctor g) = Some s1"
    and fin: "init_finish s1 = Some s'"
    by (auto simp: initInducedCosts_visits Option.bind_eq_Some_conv)
  have fr: "init_frame g n s1"
    unfolding n by (rule visit_loop(1) [OF init_frame_ctor s1])
  then have g: "graph_ref s1 = g" and len: "length (icf s1) = n" "length (icp s1) = n"
    "length (edges s1) = n" "0 < n"
    and z: "icf s1 ! 0 = Forbidden" "icp s1 ! 0 = Forbidden"
    by (simp_all add: init_frame_def)
  from fin obtain out where out: "nan_sweep g (icf s1) (icp s1) [0 ..< n] = Some out"
    by (auto simp: init_finish_def g len Option.bind_eq_Some_conv)
  from init_tail [OF fr out refl refl] fin
  obtain findex pindex where
    s': "s' = s1\<lparr>cout := out,
               forb_rank2edge := std_sort (\<lambda>a b. icf s1 ! b < icf s1 ! a) [0 ..< n],
               perm_rank2edge := std_sort (\<lambda>a b. icp s1 ! b < icp s1 ! a) [0 ..< n],
               edge2forb_rank := findex, edge2perm_rank := pindex,
               edgeToBundle := [0 ..< n], edgeBundles := map (\<lambda>r. [r]) [0 ..< n]\<rparr>"
    and hf: "heap_indexed (std_sort (\<lambda>a b. icf s1 ! b < icf s1 ! a) [0 ..< n]) findex n"
    and hp: "heap_indexed (std_sort (\<lambda>a b. icp s1 ! b < icp s1 ! a) [0 ..< n]) pindex n"
    by auto
  have "engine_inv s'"
    using len z hf hp bundles_ok_init [of n] by (simp add: s' engine_inv_def)
  then show ?thesis
    using s1 fr g by (auto simp add: s')
qed

lemma init_total:
  assumes "ranks_in_range g"
  shows "\<exists>s'. initInducedCosts kf kp (EdgeHeap_ctor g) = Some s'"
proof -
  define n where "n = 1 + numEdges g"
  have rv: "\<forall>uv \<in> set (visits g). visit_rank g uv < n"
    and ri: "\<forall>i \<in> set [0 ..< n]. findIndexId g i < n"
    using assms by (auto simp: ranks_in_range_def n_def list_all_iff)
  have f0: "init_frame g n (EdgeHeap_ctor g)"
    unfolding n_def by (rule init_frame_ctor)
  from visit_loop_total [OF f0 rv, of kf kp] obtain s1 where
    s1: "for_each (\<lambda>uv. init_edge kf kp (fst uv) (snd uv)) (visits g) (EdgeHeap_ctor g) = Some s1"
    by blast
  have fr: "init_frame g n s1" by (rule visit_loop(1) [OF f0 s1])
  then have len: "length (icf s1) = n" "length (icp s1) = n"
    by (simp_all add: init_frame_def)
  from nan_sweep_total [of "[0 ..< n]" g "icf s1" "icp s1"] ri len
  obtain out where out: "nan_sweep g (icf s1) (icp s1) [0 ..< n] = Some out" by auto
  from init_tail [OF fr out refl refl] obtain s' where "init_finish s1 = Some s'" by blast
  then show ?thesis
    by (simp add: initInducedCosts_visits s1)
qed

lemma ctor_costs:
  "k < 1 + numEdges g \<Longrightarrow> icf (EdgeHeap_ctor g) ! k = Forbidden \<and> icp (EdgeHeap_ctor g) ! k = Forbidden"
  "unprocessed (EdgeHeap_ctor g) = 0"
  by (simp_all add: EdgeHeap_ctor_def nth_Cons')


lemma set_intersection_sorted:
  "sorted_wrt (<) xs \<Longrightarrow> sorted_wrt (<) ys \<Longrightarrow>
   set (set_intersection xs ys) = set xs \<inter> set ys \<and> sorted_wrt (<) (set_intersection xs ys)"
proof (induction xs ys rule: set_intersection.induct)
  case (1 x xs y ys)
  have sx: "sorted_wrt (<) xs" "\<forall>a \<in> set xs. x < a"
    and sy: "sorted_wrt (<) ys" "\<forall>b \<in> set ys. y < b"
    using "1.prems" by simp_all
  consider (lt) "x < y" | (gt) "y < x" | (eq) "x = y" by fastforce
  then show ?case
  proof cases
    case lt
    then have "x \<notin> set (y # ys)" using sy(2) by auto
    with lt "1.IH"(1) [OF lt sx(1) "1.prems"(2)] show ?thesis by auto
  next
    case gt
    then have "y \<notin> set (x # xs)" using sx(2) by auto
    with gt "1.IH"(2) [OF _ gt "1.prems"(1) sy(1)] show ?thesis by auto
  next
    case eq
    with "1.IH"(3) [OF _ _ sx(1) sy(1)] sx(2) sy(2) show ?thesis by auto
  qed
qed simp_all

text \<open>The costs and the counter after \<^verbatim>\<open>initInducedCosts\<close>.\<close>

lemma init_costs:
  assumes ok: "initInducedCosts kf kp (EdgeHeap_ctor g) = Some s'"
  shows "unprocessed s' = of_nat (length (filter (tracked g) (visits g)))"
    and "k \<le> numEdges g \<Longrightarrow> \<forall>uv \<in> set (visits g). tracked g uv \<longrightarrow> visit_rank g uv \<noteq> k
         \<Longrightarrow> icf s' ! k = Forbidden \<and> icp s' ! k = Forbidden"
    and "(u, v) \<in> set (visits g) \<Longrightarrow> tracked g (u, v)
         \<Longrightarrow> getWeightRank g (visit_rank g (u, v)) \<noteq> NaN
         \<Longrightarrow> \<forall>uv \<in> set (visits g). tracked g uv \<longrightarrow> visit_rank g uv = visit_rank g (u, v) \<longrightarrow> uv = (u, v)
         \<Longrightarrow> icf s' ! visit_rank g (u, v) = edge_icf kf g u v (getWeightRank g (visit_rank g (u, v)))
           \<and> icp s' ! visit_rank g (u, v) = edge_icp kp g u v (getWeightRank g (visit_rank g (u, v)))"
proof -
  from init_result [OF ok refl] obtain s1 where
    s1: "for_each (\<lambda>uv. init_edge kf kp (fst uv) (snd uv)) (visits g) (EdgeHeap_ctor g) = Some s1"
    and eq: "icf s' = icf s1" "icp s' = icp s1" "unprocessed s' = unprocessed s1"
    by blast
  note vl = visit_loop [OF init_frame_ctor s1]
  show "unprocessed s' = of_nat (length (filter (tracked g) (visits g)))"
    using vl(2) by (simp add: eq ctor_costs)
  show "icf s' ! k = Forbidden \<and> icp s' ! k = Forbidden"
    if "k \<le> numEdges g" "\<forall>uv \<in> set (visits g). tracked g uv \<longrightarrow> visit_rank g uv \<noteq> k"
    using vl(3) [OF that(2)] ctor_costs(1) [of k g] that(1) by (simp add: eq)
  show "icf s' ! visit_rank g (u, v) = edge_icf kf g u v (getWeightRank g (visit_rank g (u, v)))
           \<and> icp s' ! visit_rank g (u, v) = edge_icp kp g u v (getWeightRank g (visit_rank g (u, v)))"
    if "(u, v) \<in> set (visits g)" "tracked g (u, v)"
       "getWeightRank g (visit_rank g (u, v)) \<noteq> NaN"
       "\<forall>uv \<in> set (visits g). tracked g uv \<longrightarrow> visit_rank g uv = visit_rank g (u, v) \<longrightarrow> uv = (u, v)"
    using visit_loop_target [OF init_frame_ctor s1 that] by (simp add: eq)
qed

lemma distinct_pairs:
  "distinct us \<Longrightarrow> \<forall>u \<in> set us. distinct (f u)
   \<Longrightarrow> distinct (concat (map (\<lambda>u. map (Pair u) (f u)) us))"
proof (induction us)
  case Nil
  then show ?case by simp
next
  case (Cons u us)
  have "distinct (map (Pair u) (f u))"
    using Cons.prems(2) by (simp add: distinct_map inj_on_def)
  moreover have "distinct (concat (map (\<lambda>u. map (Pair u) (f u)) us))"
    using Cons by simp
  moreover have "set (map (Pair u) (f u)) \<inter> set (concat (map (\<lambda>u. map (Pair u) (f u)) us)) = {}"
    using Cons.prems(1) by auto
  ultimately show ?case by simp
qed

lemma visits_mem:
  "(u, v) \<in> set (visits g) \<longleftrightarrow> u < numNodes g \<and> v \<in> set (getNonZeroNeighbours g u)"
  by (auto simp: visits_def)

section \<open>Reachable states\<close>

text \<open>
  Every state that the engine reaches satisfies the invariant: the two heaps are
  permutations of all ranks with exact inverse index tables, the bundle tables agree, and
  rank 0 carries the \<^verbatim>\<open>Forbidden\<close> sentinel in both cost arrays.
\<close>

lemma increaseIcf_inv:
  assumes inv: "engine_inv s" and ok: "increaseIcf s e w = Some s'"
  shows "engine_inv s'"
proof -
  note i = engine_invD [OF inv]
  note b = bundles_okD [OF i(6)]
  define r where "r = findIndex (graph_ref s) e"
  show ?thesis
  proof (cases "r = 0 \<or> w = Fin 0")
    case True
    then have "increaseIcf s e w = Some s"
      unfolding r_def by (intro increaseIcf_noop) auto
    with ok inv show ?thesis by simp
  next
    case False
    have rn: "r < length (icf s)"
    proof (rule ccontr)
      assume "\<not> r < length (icf s)"
      then have "increaseIcf s e w = None"
        using False b(1) by (simp add: increaseIcf_def Let_def r_def [symmetric])
      with ok show False by simp
    qed
    define eb where "eb = edgeToBundle s ! r"
    have ebn: "eb < length (icf s)" "eb \<noteq> 0"
      using b(3) [OF rn] b(4) [OF rn] False by (simp_all add: eb_def)
    show ?thesis
    proof (cases "Fin 0 \<le> icf s ! eb")
      case live: True
      from increaseIcf_live [OF inv _ _ _ _ live refl, of e w] False rn
      obtain heap' index' where h: "heap_indexed heap' index' (length (icf s))"
        and s': "increaseIcf s e w =
                   Some (s\<lparr>icf := (icf s)[eb := std_max (icf s ! eb + w) (Fin 0)],
                           forb_rank2edge := heap', edge2forb_rank := index'\<rparr>)"
        unfolding r_def eb_def by auto
      have "engine_inv (s\<lparr>icf := (icf s)[eb := std_max (icf s ! eb + w) (Fin 0)],
                           forb_rank2edge := heap', edge2forb_rank := index'\<rparr>)"
        using i h ebn(2) by (simp add: engine_inv_def)
      with s' ok show ?thesis by simp
    next
      case dead: False
      have "increaseIcf s e w = Some s"
        using dead ebn rn b(1) unfolding r_def eb_def by (intro increaseIcf_noop) simp
      with ok inv show ?thesis by simp
    qed
  qed
qed

lemma increaseIcp_inv:
  assumes inv: "engine_inv s" and ok: "increaseIcp s e w = Some s'"
  shows "engine_inv s'"
proof -
  note i = engine_invD [OF inv]
  note b = bundles_okD [OF i(6)]
  define r where "r = findIndex (graph_ref s) e"
  show ?thesis
  proof (cases "r = 0 \<or> w = Fin 0")
    case True
    then have "increaseIcp s e w = Some s"
      unfolding r_def by (intro increaseIcp_noop) auto
    with ok inv show ?thesis by simp
  next
    case False
    have rn: "r < length (icf s)"
    proof (rule ccontr)
      assume "\<not> r < length (icf s)"
      then have "increaseIcp s e w = None"
        using False b(1) by (simp add: increaseIcp_def Let_def r_def [symmetric])
      with ok show False by simp
    qed
    define eb where "eb = edgeToBundle s ! r"
    have ebn: "eb < length (icf s)" "eb \<noteq> 0"
      using b(3) [OF rn] b(4) [OF rn] False by (simp_all add: eb_def)
    show ?thesis
    proof (cases "Fin 0 \<le> icp s ! eb")
      case live: True
      from increaseIcp_live [OF inv _ _ _ _ live refl, of e w] False rn
      obtain heap' index' where h: "heap_indexed heap' index' (length (icf s))"
        and s': "increaseIcp s e w =
                   Some (s\<lparr>icp := (icp s)[eb := std_max (icp s ! eb + w) (Fin 0)],
                           perm_rank2edge := heap', edge2perm_rank := index'\<rparr>)"
        unfolding r_def eb_def by auto
      have "engine_inv (s\<lparr>icp := (icp s)[eb := std_max (icp s ! eb + w) (Fin 0)],
                           perm_rank2edge := heap', edge2perm_rank := index'\<rparr>)"
        using i h ebn(2) by (simp add: engine_inv_def)
      with s' ok show ?thesis by simp
    next
      case dead: False
      have "increaseIcp s e w = Some s"
        using dead ebn rn b(1) i(2) unfolding r_def eb_def by (intro increaseIcp_noop) simp
      with ok inv show ?thesis by simp
    qed
  qed
qed

lemma mergeEdges_inv:
  assumes inv: "engine_inv s" and ok: "mergeEdges s e1 e2 = Some s'"
  shows "engine_inv s'"
proof -
  note i = engine_invD [OF inv]
  note b = bundles_okD [OF i(6)]
  define r1 where "r1 = findIndex (graph_ref s) e1"
  define r2 where "r2 = findIndex (graph_ref s) e2"
  show ?thesis
  proof (cases "r1 AND r2 = 0")
    case True
    then have "mergeEdges s e1 e2 = Some s"
      unfolding r1_def r2_def by (rule mergeEdges_guard)
    with ok inv show ?thesis by simp
  next
    case False
    have rn: "r1 < length (icf s) \<and> r2 < length (icf s)"
    proof (rule ccontr)
      assume "\<not> (r1 < length (icf s) \<and> r2 < length (icf s))"
      then have "mergeEdges s e1 e2 = None"
        using False b(1)
        by (auto simp add: mergeEdges_def Let_def r1_def [symmetric] r2_def [symmetric])
      with ok show False by simp
    qed
    show ?thesis
    proof (cases "edgeToBundle s ! r1 = edgeToBundle s ! r2")
      case True
      then have "mergeEdges s e1 e2 = Some s"
        using rn b(1) unfolding r1_def r2_def by (intro mergeEdges_same_bundle) simp_all
      with ok inv show ?thesis by simp
    next
      case ne: False
      from mergeEdges_merges [OF inv _ _ _ refl refl _ refl refl, of e1 e2] rn False ne
      obtain t where "mergeEdges s e1 e2 = Some t" "engine_inv t"
        unfolding r1_def r2_def by auto
      with ok show ?thesis by simp
    qed
  qed
qed

lemma reachable_inv: "reachable kf kp g s \<Longrightarrow> engine_inv s"
proof (induction rule: reachable.induct)
  case (after_init s)
  from init_result [OF after_init refl] show ?case by blast
next
  case (after_increaseIcf s e w s')
  then show ?case using increaseIcf_inv by blast
next
  case (after_increaseIcp s e w s')
  then show ?case using increaseIcp_inv by blast
next
  case (after_removeEdge s e s')
  then show ?case using removeEdgeRank_inv(1) by (simp add: removeEdge_def)
next
  case (after_mergeEdges s e1 e2 s')
  then show ?case using mergeEdges_inv by blast
qed

lemma heap_indexed_placeholder:
  assumes h: "heap_indexed heap index n" and n: "0 < n"
  shows "0 \<in> set heap" and "distinct heap"
proof -
  note d = heap_indexedD [OF h]
  have "heap ! (index ! 0) = 0" "index ! 0 < length heap"
    using d(6) [OF n] d(5) [OF n] d(1) by simp_all
  then show "0 \<in> set heap" by (metis nth_mem)
  show "distinct heap"
    unfolding distinct_conv_nth using heap_indexed_inj [OF h] d(1) by auto
qed

section \<open>Maximum queries\<close>

text \<open>
  Claim C3, as the code has it. \<^verbatim>\<open>getMaxIcfEdge\<close> and \<^verbatim>\<open>getMaxIcpEdge\<close> return
  \<^verbatim>\<open>InvalidEdge\<close> when the heap holds at most one entry (only the placeholder of rank 0
  is left) and when the value of the rank at heap slot 0 is negative (\<open>< 0\<close>). In every
  other case, a value of exactly 0 included, they return the edge stored for the rank at
  heap slot 0.
\<close>

theorem getMaxEdge_result:
  assumes "forb_rank2edge s \<noteq> []"
    and "forb_rank2edge s ! 0 < length (icf s)"
    and "forb_rank2edge s ! 0 < length (edges s)"
    and "perm_rank2edge s \<noteq> []"
    and "perm_rank2edge s ! 0 < length (icp s)"
    and "perm_rank2edge s ! 0 < length (edges s)"
  shows "getMaxIcfEdge s =
           Some (if length (forb_rank2edge s) \<le> 1 \<or> icf s ! (forb_rank2edge s ! 0) < Fin 0
                 then InvalidEdge else edges s ! (forb_rank2edge s ! 0))
       \<and> getMaxIcpEdge s =
           Some (if length (perm_rank2edge s) \<le> 1 \<or> icp s ! (perm_rank2edge s ! 0) < Fin 0
                 then InvalidEdge else edges s ! (perm_rank2edge s ! 0))"
  using assms by (simp add: getMaxIcfEdge_def getMaxIcpEdge_def)

theorem getMaxEdge_result_witness:
  "getMaxIcfEdge (the (example_init 4 scenario_edges)) = Some (Edge 0 1)
   \<and> getMaxIcpEdge (the (example_init 4 scenario_edges)) = Some (Edge 0 1)"
proof -
  let ?s = "the (example_init 4 scenario_edges)"
  have f: "forb_rank2edge ?s = [1, 2, 3, 4, 0]" by code_simp
  have p: "perm_rank2edge ?s = [1, 2, 3, 4, 0]" by code_simp
  have cf: "icf ?s = [NInf, Fin 3, Fin 2, Fin 2, Fin 1]" by code_simp
  have cp: "icp ?s = [NInf, Fin 1, Fin 1, Fin 1, Fin 0]" by code_simp
  have e: "edges ?s = [InvalidEdge, Edge 0 1, Edge 0 2, Edge 1 2, Edge 2 3]" by code_simp
  show ?thesis
    using getMaxEdge_result [of ?s] by (simp add: f p cf cp e)
qed

text \<open>
  Claim C3 as stated fails at a top value of exactly 0. After the initialisation of the
  graph with the single edge \<open>(0,1)\<close> of weight \<open>-1\<close>, rank 1 is at slot 0 of the heap of
  \<open>icf\<close> with the value 0, and \<^verbatim>\<open>getMaxIcfEdge\<close> returns the edge \<open>(0,1)\<close>.
\<close>

theorem getMaxIcfEdge_zero_counterexample:
  "map_option snapshot (example_init 2 negative_edges) =
     Some (1, [InvalidEdge, Edge 0 1], [NInf, Fin 0], [NInf, Fin 1],
           [1, 0], [1, 0], [1, 0], [1, 0], [0, 1], [[0], [1]], [])
   \<and> Option.bind (example_init 2 negative_edges) getMaxIcfEdge = Some (Edge 0 1)
   \<and> Edge 0 1 \<noteq> InvalidEdge"
  by code_simp

section \<open>removeEdge: the removed entry and idempotence\<close>

text \<open>
  \<^verbatim>\<open>removeEdge(Edge)\<close> on the entries of the rank of the edge: when \<open>icf[r]\<close> and \<open>icp[r]\<close>
  both differ from \<^verbatim>\<open>Forbidden\<close>, both are set to \<^verbatim>\<open>Forbidden\<close>, \<^verbatim>\<open>updateHeap\<close> runs for
  \<open>r\<close> on both heaps and \<open>unprocessed\<close> is decremented by 1.
\<close>

lemma removeEdge_own_entry:
  assumes inv: "engine_inv s"
    and r: "r = findIndex (graph_ref s) e" "r \<noteq> 0" "r < length (icf s)"
    and live: "icf s ! r \<noteq> Forbidden" "icp s ! r \<noteq> Forbidden"
  shows "\<exists>s'. removeEdge s e = Some s'
           \<and> icf s' = (icf s)[r := Forbidden]
           \<and> icp s' = (icp s)[r := Forbidden]
           \<and> updateHeap (forb_rank2edge s) r Forbidden (edge2forb_rank s) (icf s')
               = Some (forb_rank2edge s', edge2forb_rank s')
           \<and> updateHeap (perm_rank2edge s) r Forbidden (edge2perm_rank s) (icp s')
               = Some (perm_rank2edge s', edge2perm_rank s')
           \<and> unprocessed s' = unprocessed s - 1
           \<and> edgeToBundle s' = edgeToBundle s \<and> edgeBundles s' = edgeBundles s
           \<and> engine_inv s'"
proof -
  from removeEdgeRank_live [OF inv r(3) r(2) live]
  obtain fheap findex pheap pindex where
    f: "updateHeap (forb_rank2edge s) r Forbidden (edge2forb_rank s) ((icf s)[r := Forbidden])
          = Some (fheap, findex)"
    and p: "updateHeap (perm_rank2edge s) r Forbidden (edge2perm_rank s) ((icp s)[r := Forbidden])
          = Some (pheap, pindex)"
    and s': "removeEdgeRank s r =
         Some (s\<lparr>icf := (icf s)[r := Forbidden], icp := (icp s)[r := Forbidden],
                 forb_rank2edge := fheap, edge2forb_rank := findex,
                 perm_rank2edge := pheap, edge2perm_rank := pindex,
                 unprocessed := unprocessed s - 1\<rparr>)"
    by blast
  from removeEdgeRank_inv(1) [OF inv s'] f p s' show ?thesis
    by (simp add: removeEdge_def r(1) [symmetric])
qed

text \<open>
  Claim C5 fails on the code for a rank that a merge has moved to another bundle.
  \<^verbatim>\<open>removeEdge(Edge)\<close> passes the rank of the edge on without looking up its bundle. On the
  path, merging the edges of ranks 2 and 3 leaves bundle 3 with the members 3 and 2 and
  the live value 7. \<^verbatim>\<open>removeEdge\<close> on the edge \<open>(1,2)\<close> of rank 2 then changes nothing: the
  entries of bundle 3 stay 7 and 0, \<open>unprocessed\<close> stays 2, and \<^verbatim>\<open>getIcf\<close> of the edge,
  which does look up the bundle, still returns 7.
\<close>

theorem removeEdge_ignores_bundle:
  "map_option snapshot
     (then_mergeEdges (example_init 4 path_edges) (Edge 1 2) (Edge 2 3)) =
     Some (2, [InvalidEdge, Edge 0 1, Edge 1 2, Edge 2 3],
           [NInf, Fin 5, NInf, Fin 7], [NInf, Fin 0, NInf, Fin 0],
           [1, 2, 3, 0], [1, 2, 3, 0], [3, 0, 1, 2], [3, 0, 1, 2],
           [0, 1, 3, 3], [[0], [1], [], [3, 2]], [])
   \<and> map_option snapshot
     (then_removeEdge (then_mergeEdges (example_init 4 path_edges) (Edge 1 2) (Edge 2 3))
        (Edge 1 2)) =
     Some (2, [InvalidEdge, Edge 0 1, Edge 1 2, Edge 2 3],
           [NInf, Fin 5, NInf, Fin 7], [NInf, Fin 0, NInf, Fin 0],
           [1, 2, 3, 0], [1, 2, 3, 0], [3, 0, 1, 2], [3, 0, 1, 2],
           [0, 1, 3, 3], [[0], [1], [], [3, 2]], [])
   \<and> then_getIcf
     (then_removeEdge (then_mergeEdges (example_init 4 path_edges) (Edge 1 2) (Edge 2 3))
        (Edge 1 2)) (Edge 1 2) = Some (Fin 7, [])"
  by code_simp

text \<open>
  Claim C6, as the code has it. Removing an edge twice gives the state of removing it
  once, for every edge. For an edge whose rank is its own bundle, \<open>unprocessed\<close> has then
  decreased by 1 if the entries of the rank were live before the first call, and has not
  changed if an entry was already \<^verbatim>\<open>Forbidden\<close>; for an edge of rank 0 nothing changes.
\<close>

theorem removeEdge_idempotent:
  assumes inv: "engine_inv s"
    and r: "r = findIndex (graph_ref s) e" "r < length (icf s)"
  shows "\<exists>s'. removeEdge s e = Some s' \<and> removeEdge s' e = Some s'
           \<and> (edgeToBundle s ! r = r \<longrightarrow>
                 unprocessed s' =
                   (if r \<noteq> 0 \<and> icf s ! r \<noteq> Forbidden \<and> icp s ! r \<noteq> Forbidden
                    then unprocessed s - 1 else unprocessed s))
           \<and> (r = 0 \<longrightarrow> s' = s)"
proof (cases "r \<noteq> 0 \<and> icf s ! r \<noteq> Forbidden \<and> icp s ! r \<noteq> Forbidden")
  case True
  from removeEdgeRank_live [OF inv r(2)] True
  obtain s' where s': "removeEdgeRank s r = Some s'"
    and f: "icf s' = (icf s)[r := Forbidden]" and u: "unprocessed s' = unprocessed s - 1"
    by fastforce
  have g: "graph_ref s' = graph_ref s"
    by (rule removeEdgeRank_inv(2) [OF inv s'])
  have "removeEdgeRank s' r = Some s'"
    using r(2) f by (intro removeEdgeRank_noop) simp
  then show ?thesis
    using True s' u g by (simp add: removeEdge_def r(1) [symmetric])
next
  case False
  then have "removeEdgeRank s r = Some s"
    using r(2) engine_invD(2) [OF inv] by (intro removeEdgeRank_noop) auto
  then show ?thesis
    using False by (auto simp add: removeEdge_def r(1) [symmetric])
qed

theorem removeEdge_idempotent_witness:
  "map_option snapshot (then_removeEdge (then_removeEdge (example_init 4 path_edges) (Edge 1 2)) (Edge 1 2))
     = map_option snapshot (then_removeEdge (example_init 4 path_edges) (Edge 1 2))
   \<and> map_option unprocessed (then_removeEdge (then_removeEdge (example_init 4 path_edges) (Edge 1 2)) (Edge 1 2))
     = Some 2
   \<and> map_option unprocessed (example_init 4 path_edges) = Some 3"
proof -
  define s where "s = the (example_init 4 path_edges)"
  have "example_init 4 path_edges \<noteq> None" by code_simp
  then have some: "example_init 4 path_edges = Some s" by (simp add: s_def)
  have inv: "engine_inv s" unfolding s_def by code_simp
  have r: "2 = findIndex (graph_ref s) (Edge 1 2)" "2 < length (icf s)"
    unfolding s_def by code_simp+
  have own: "edgeToBundle s ! 2 = 2" unfolding s_def by code_simp
  have live: "(2::nat) \<noteq> 0 \<and> icf s ! 2 \<noteq> Forbidden \<and> icp s ! 2 \<noteq> Forbidden"
    unfolding s_def by code_simp
  have u: "unprocessed s = 3" unfolding s_def by code_simp
  from removeEdge_idempotent [OF inv r] own live u
  show ?thesis
    by (auto simp add: some then_removeEdge_def)
qed

text \<open>
  Claim C6 as stated fails for an edge whose entries were never live. With the edge
  \<open>(0,1)\<close> of weight 5 and the edge \<open>(1,2)\<close> of rank 2 and weight exactly 0,
  \<^verbatim>\<open>initInducedCosts\<close> skips the second edge: its entries stay \<^verbatim>\<open>Forbidden\<close>, it is its own
  bundle, and \<open>unprocessed\<close> is 1. Two calls of \<^verbatim>\<open>removeEdge\<close> on it change nothing, and
  \<open>unprocessed\<close> is still 1: it has decreased by 0, not by 1.
\<close>

theorem removeEdge_twice_never_live_counterexample:
  "map_option snapshot (example_init 3 zero_weight_edges) =
     Some (1, [InvalidEdge, Edge 0 1, Edge 1 2],
           [NInf, Fin 5, NInf], [NInf, Fin 0, NInf],
           [1, 0, 2], [1, 0, 2], [1, 0, 2], [1, 0, 2],
           [0, 1, 2], [[0], [1], [2]], [])
   \<and> map_option snapshot
       (then_removeEdge (then_removeEdge (example_init 3 zero_weight_edges) (Edge 1 2)) (Edge 1 2)) =
     Some (1, [InvalidEdge, Edge 0 1, Edge 1 2],
           [NInf, Fin 5, NInf], [NInf, Fin 0, NInf],
           [1, 0, 2], [1, 0, 2], [1, 0, 2], [1, 0, 2],
           [0, 1, 2], [[0], [1], [2]], [])"
  by code_simp

section \<open>mergeEdges: the guard, the heap order and the sums\<close>

text \<open>
  Claim C1 fails on the code for two ranks without a common bit. In the graph of the
  scenario of the specification the edges \<open>(0,1)\<close> and \<open>(0,2)\<close> have the ranks 1 and 2,
  their bundles are distinct and live, and \<open>1 & 2 = 0\<close>: \<^verbatim>\<open>mergeEdges\<close> returns at its
  guard \<^verbatim>\<open>(r1 & r2) == 0\<close> and leaves the state as it was. No member is moved and no value
  is summed.
\<close>

theorem mergeEdges_disjoint_ranks_unmerged:
  "map_option snapshot (example_init 4 scenario_edges) =
     Some (4, [InvalidEdge, Edge 0 1, Edge 0 2, Edge 1 2, Edge 2 3],
           [NInf, Fin 3, Fin 2, Fin 2, Fin 1], [NInf, Fin 1, Fin 1, Fin 1, Fin 0],
           [1, 2, 3, 4, 0], [1, 2, 3, 4, 0], [4, 0, 1, 2, 3], [4, 0, 1, 2, 3],
           [0, 1, 2, 3, 4], [[0], [1], [2], [3], [4]], [])
   \<and> map_option snapshot
         (then_mergeEdges (example_init 4 scenario_edges) (Edge 0 1) (Edge 0 2)) =
     Some (4, [InvalidEdge, Edge 0 1, Edge 0 2, Edge 1 2, Edge 2 3],
           [NInf, Fin 3, Fin 2, Fin 2, Fin 1], [NInf, Fin 1, Fin 1, Fin 1, Fin 0],
           [1, 2, 3, 4, 0], [1, 2, 3, 4, 0], [4, 0, 1, 2, 3], [4, 0, 1, 2, 3],
           [0, 1, 2, 3, 4], [[0], [1], [2], [3], [4]], [])"
  by code_simp

text \<open>
  Claim C2 fails on the code after \<^verbatim>\<open>mergeEdges\<close>. On the path with the values 5, 4, 3 the
  heap of \<open>icf\<close> is \<open>[1, 2, 3, 0]\<close>. Merging the edges of ranks 2 and 3 raises the value of
  the surviving bundle 3 to 7 and calls \<^verbatim>\<open>updateHeap\<close> only for the absorbed rank 2:
  bundle 3 stays at slot 2, below rank 1 with the value 5 at slot 0. The heap order is
  broken and \<^verbatim>\<open>getMaxIcfEdge\<close> still returns the edge of rank 1.
\<close>

theorem mergeEdges_breaks_heap_order:
  "map_option forb_heap_ordered (example_init 4 path_edges) = Some True
   \<and> map_option snapshot
         (then_mergeEdges (example_init 4 path_edges) (Edge 1 2) (Edge 2 3)) =
     Some (2, [InvalidEdge, Edge 0 1, Edge 1 2, Edge 2 3],
           [NInf, Fin 5, NInf, Fin 7], [NInf, Fin 0, NInf, Fin 0],
           [1, 2, 3, 0], [1, 2, 3, 0], [3, 0, 1, 2], [3, 0, 1, 2],
           [0, 1, 3, 3], [[0], [1], [], [3, 2]], [])
   \<and> map_option forb_heap_ordered
         (then_mergeEdges (example_init 4 path_edges) (Edge 1 2) (Edge 2 3)) = Some False
   \<and> Option.bind (then_mergeEdges (example_init 4 path_edges) (Edge 1 2) (Edge 2 3))
         getMaxIcfEdge = Some (Edge 0 1)"
  by code_simp

text \<open>
  Claim C9, as the code has it. A merge of two distinct bundles checks the entries of the
  absorbed bundle only. When the absorbed value of \<open>icf\<close> (of \<open>icp\<close>) is negative, as the
  \<^verbatim>\<open>Forbidden\<close> sentinel is, the line "Merged edge has negative icf" ("... icp") is printed
  and the value of the surviving bundle stays as it was. In every other case the absorbed
  value is added to the value of the surviving bundle, whatever that value is, and nothing
  is printed.
\<close>

theorem mergeEdges_checks_absorbed_entry:
  assumes inv: "engine_inv s"
    and r: "findIndex (graph_ref s) e1 < length (icf s)" "findIndex (graph_ref s) e2 < length (icf s)"
    and g: "findIndex (graph_ref s) e1 AND findIndex (graph_ref s) e2 \<noteq> 0"
    and eb: "eb1 = edgeToBundle s ! findIndex (graph_ref s) e1"
            "eb2 = edgeToBundle s ! findIndex (graph_ref s) e2"
    and ne: "eb1 \<noteq> eb2"
    and kd: "keep = (if length (edgeBundles s ! eb1) > length (edgeBundles s ! eb2) then eb1 else eb2)"
            "del = (if length (edgeBundles s ! eb1) > length (edgeBundles s ! eb2) then eb2 else eb1)"
  shows "\<exists>s'. mergeEdges s e1 e2 = Some s'
           \<and> icf s' ! keep =
               (if icf s ! del < Fin 0 then icf s ! keep else icf s ! keep + icf s ! del)
           \<and> icp s' ! keep =
               (if icp s ! del < Fin 0 then icp s ! keep else icp s ! keep + icp s ! del)
           \<and> cout s' =
               cout s @ (if icf s ! del < Fin 0 then [''Merged edge has negative icf''] else [])
                      @ (if icp s ! del < Fin 0 then [''Merged edge has negative icp''] else [])
           \<and> (icf s ! del = Forbidden \<longrightarrow> icf s' ! keep = icf s ! keep)
           \<and> (icp s ! del = Forbidden \<longrightarrow> icp s' ! keep = icp s ! keep)"
proof -
  from mergeEdges_merges [OF inv r g eb ne kd]
  obtain s' where s': "mergeEdges s e1 e2 = Some s'"
    and f: "icf s' ! keep =
               (if icf s ! del < Fin 0 then icf s ! keep else icf s ! keep + icf s ! del)"
    and p: "icp s' ! keep =
               (if icp s ! del < Fin 0 then icp s ! keep else icp s ! keep + icp s ! del)"
    and c: "cout s' =
               cout s @ (if icf s ! del < Fin 0 then [''Merged edge has negative icf''] else [])
                      @ (if icp s ! del < Fin 0 then [''Merged edge has negative icp''] else [])"
    by blast
  have "icf s ! del = Forbidden \<longrightarrow> icf s' ! keep = icf s ! keep"
    using f by (simp add: Forbidden_def)
  moreover have "icp s ! del = Forbidden \<longrightarrow> icp s' ! keep = icp s ! keep"
    using p by (simp add: Forbidden_def)
  ultimately show ?thesis using s' f p c by blast
qed

theorem mergeEdges_checks_absorbed_entry_witness:
  "\<exists>s'. then_mergeEdges (then_removeEdge (example_init 4 path_edges) (Edge 1 2))
            (Edge 1 2) (Edge 2 3) = Some s'
        \<and> icf s' ! 3 = Fin 3 \<and> icp s' ! 3 = Fin 0
        \<and> cout s' = [''Merged edge has negative icf'', ''Merged edge has negative icp'']"
proof -
  define s where "s = the (then_removeEdge (example_init 4 path_edges) (Edge 1 2))"
  have "then_removeEdge (example_init 4 path_edges) (Edge 1 2) \<noteq> None" by code_simp
  then have some: "then_removeEdge (example_init 4 path_edges) (Edge 1 2) = Some s"
    by (simp add: s_def)
  have inv: "engine_inv s" unfolding s_def by code_simp
  have r: "findIndex (graph_ref s) (Edge 1 2) < length (icf s)"
    "findIndex (graph_ref s) (Edge 2 3) < length (icf s)" unfolding s_def by code_simp+
  have g: "findIndex (graph_ref s) (Edge 1 2) AND findIndex (graph_ref s) (Edge 2 3) \<noteq> 0"
    unfolding s_def by code_simp
  have eb: "2 = edgeToBundle s ! findIndex (graph_ref s) (Edge 1 2)"
    "3 = edgeToBundle s ! findIndex (graph_ref s) (Edge 2 3)" unfolding s_def by code_simp+
  have kd: "(3::nat) = (if length (edgeBundles s ! 2) > length (edgeBundles s ! 3) then 2 else 3)"
    "(2::nat) = (if length (edgeBundles s ! 2) > length (edgeBundles s ! 3) then 3 else 2)"
    unfolding s_def by code_simp+
  have ne: "(2::nat) \<noteq> 3" by simp
  have cf: "icf s = [NInf, Fin 5, NInf, Fin 3]" unfolding s_def by code_simp
  have cp: "icp s = [NInf, Fin 0, NInf, Fin 0]" unfolding s_def by code_simp
  have co: "cout s = []" unfolding s_def by code_simp
  from mergeEdges_checks_absorbed_entry [OF inv r g eb ne kd]
  obtain s' where s': "mergeEdges s (Edge 1 2) (Edge 2 3) = Some s'"
    and v: "icf s' ! 3 = Fin 3" "icp s' ! 3 = Fin 0"
      "cout s' = [''Merged edge has negative icf'', ''Merged edge has negative icp'']"
    by (auto simp add: cf cp co)
  have "then_mergeEdges (then_removeEdge (example_init 4 path_edges) (Edge 1 2))
            (Edge 1 2) (Edge 2 3) = Some s'"
    unfolding some then_mergeEdges_def using s' by simp
  with v show ?thesis by blast
qed

text \<open>
  Claim C9 as stated fails when the surviving bundle is the removed one. On the path,
  after \<^verbatim>\<open>removeEdge\<close> on the edge of rank 3, merging the edges of ranks 2 and 3 keeps
  bundle 3, whose values are the \<^verbatim>\<open>Forbidden\<close> sentinel, and absorbs bundle 2 with the live
  value 4. The merge adds 4 to the sentinel, prints nothing, and removes the entry of
  rank 2: the value of the merged bundle is the sentinel and \<open>unprocessed\<close> falls to 1.
\<close>

theorem mergeEdges_removed_survivor_counterexample:
  "map_option snapshot (then_removeEdge (example_init 4 path_edges) (Edge 2 3)) =
     Some (2, [InvalidEdge, Edge 0 1, Edge 1 2, Edge 2 3],
           [NInf, Fin 5, Fin 4, NInf], [NInf, Fin 0, Fin 0, NInf],
           [1, 2, 3, 0], [1, 2, 3, 0], [3, 0, 1, 2], [3, 0, 1, 2],
           [0, 1, 2, 3], [[0], [1], [2], [3]], [])
   \<and> map_option snapshot
     (then_mergeEdges (then_removeEdge (example_init 4 path_edges) (Edge 2 3))
        (Edge 1 2) (Edge 2 3)) =
     Some (1, [InvalidEdge, Edge 0 1, Edge 1 2, Edge 2 3],
           [NInf, Fin 5, NInf, NInf], [NInf, Fin 0, NInf, NInf],
           [1, 2, 3, 0], [1, 2, 3, 0], [3, 0, 1, 2], [3, 0, 1, 2],
           [0, 1, 3, 3], [[0], [1], [], [3, 2]], [])"
  by code_simp

section \<open>initInducedCosts: skipped edges and induced costs\<close>

text \<open>
  Claim C10. \<^verbatim>\<open>initInducedCosts\<close> computes no cost for a rank whose weight is exactly 0,
  \<^verbatim>\<open>Forbidden\<close> or \<^verbatim>\<open>Permanent\<close>: the two entries of the rank stay at the \<^verbatim>\<open>Forbidden\<close> of the
  constructor, no visited pair of this rank is counted in \<open>unprocessed\<close>, and afterwards the
  rank behaves as a removed one: \<^verbatim>\<open>removeEdge\<close>, \<^verbatim>\<open>increaseIcf\<close> and \<^verbatim>\<open>increaseIcp\<close> on an
  edge of this rank leave the state as it is, \<^verbatim>\<open>getIcf\<close> and \<^verbatim>\<open>getIcp\<close> return \<^verbatim>\<open>Forbidden\<close>,
  and a maximum query that finds the rank at the top of its heap returns \<^verbatim>\<open>InvalidEdge\<close>.
\<close>

theorem init_skips_unweighted:
  assumes rr: "ranks_in_range g"
    and r: "r \<le> numEdges g"
    and w: "getWeightRank g r = Fin 0 \<or> getWeightRank g r = Forbidden
            \<or> getWeightRank g r = Permanent"
  shows "\<exists>s'. initInducedCosts kf kp (EdgeHeap_ctor g) = Some s'
           \<and> icf s' ! r = Forbidden \<and> icp s' ! r = Forbidden
           \<and> unprocessed s' = of_nat (length (filter (tracked g) (visits g)))
           \<and> (\<forall>uv \<in> set (visits g). visit_rank g uv = r \<longrightarrow> \<not> tracked g uv)
           \<and> (\<forall>e. findIndex g e = r \<longrightarrow>
                 removeEdge s' e = Some s'
                 \<and> (\<forall>d. increaseIcf s' e d = Some s' \<and> increaseIcp s' e d = Some s')
                 \<and> map_option fst (getIcf s' e) = Some Forbidden
                 \<and> map_option fst (getIcp s' e) = Some Forbidden)
           \<and> (forb_rank2edge s' ! 0 = r \<longrightarrow> getMaxIcfEdge s' = Some InvalidEdge)
           \<and> (perm_rank2edge s' ! 0 = r \<longrightarrow> getMaxIcpEdge s' = Some InvalidEdge)"
proof -
  from init_total [OF rr] obtain s' where ok: "initInducedCosts kf kp (EdgeHeap_ctor g) = Some s'"
    by blast
  have nt: "\<forall>uv \<in> set (visits g). visit_rank g uv = r \<longrightarrow> \<not> tracked g uv"
    using w by (auto simp: tracked_def plain_weight_def)
  then have nt': "\<forall>uv \<in> set (visits g). tracked g uv \<longrightarrow> visit_rank g uv \<noteq> r" by blast
  note c = init_costs [OF ok]
  have v: "icf s' ! r = Forbidden" "icp s' ! r = Forbidden"
    using c(2) [OF r nt'] by simp_all
  from init_result [OF ok refl] have g: "graph_ref s' = g"
    and tb: "edgeToBundle s' = [0 ..< 1 + numEdges g]" and inv: "engine_inv s'"
    by auto
  note i = engine_invD [OF inv]
  have len: "length (icf s') = 1 + numEdges g" "length (icp s') = 1 + numEdges g"
    using bundles_okD(1) [OF i(6)] i(2) by (simp_all add: tb)
  have rn: "r < length (icf s')" "r < length (icp s')" "r < length (edgeToBundle s')"
    using r len by (simp_all add: tb)
  have own: "edgeToBundle s' ! r = r"
    using r by (simp add: tb nth_upt del: upt_Suc)
  have neg: "\<not> Fin 0 \<le> Forbidden" "Forbidden < Fin 0"
    by (simp_all add: Forbidden_def less_eq_EdgeWeight_def)
  have rm: "removeEdgeRank s' r = Some s'"
    using rn v by (intro removeEdgeRank_noop) simp
  have q: "removeEdge s' e = Some s'
           \<and> (\<forall>d. increaseIcf s' e d = Some s' \<and> increaseIcp s' e d = Some s')
           \<and> map_option fst (getIcf s' e) = Some Forbidden
           \<and> map_option fst (getIcp s' e) = Some Forbidden" if e: "findIndex g e = r" for e
  proof (intro conjI allI)
    show "removeEdge s' e = Some s'" using rm by (simp add: removeEdge_def g e)
    show "increaseIcf s' e d = Some s'" for d
      using rn own v neg by (intro increaseIcf_noop) (simp add: g e)
    show "increaseIcp s' e d = Some s'" for d
      using rn own v neg by (intro increaseIcp_noop) (simp add: g e)
    show "map_option fst (getIcf s' e) = Some Forbidden"
      using rn own v by (simp add: getIcf_def g e)
    show "map_option fst (getIcp s' e) = Some Forbidden"
      using rn own v by (simp add: getIcp_def g e)
  qed
  have hf: "length (forb_rank2edge s') = length (icf s')" "length (perm_rank2edge s') = length (icf s')"
    using heap_indexedD(1) [OF i(4)] heap_indexedD(1) [OF i(5)] by simp_all
  have mf: "getMaxIcfEdge s' = Some InvalidEdge" if "forb_rank2edge s' ! 0 = r"
    using that rn v neg hf i(1) by (simp add: getMaxIcfEdge_def)
  have mp: "getMaxIcpEdge s' = Some InvalidEdge" if "perm_rank2edge s' ! 0 = r"
    using that rn v neg hf i(1) by (simp add: getMaxIcpEdge_def)
  show ?thesis
    using ok v c(1) nt q mf mp by blast
qed

theorem init_skips_unweighted_witness:
  "\<exists>s'. example_init 3 zero_weight_edges = Some s'
        \<and> icf s' ! 2 = Forbidden \<and> icp s' ! 2 = Forbidden \<and> unprocessed s' = 1
        \<and> removeEdge s' (Edge 1 2) = Some s'
        \<and> increaseIcf s' (Edge 1 2) (Fin 3) = Some s'
        \<and> increaseIcp s' (Edge 1 2) (Fin 3) = Some s'"
proof -
  define g where "g = example_graph 3 zero_weight_edges"
  have rr: "ranks_in_range g" unfolding g_def by code_simp
  have r: "2 \<le> numEdges g" unfolding g_def by code_simp
  have w: "getWeightRank g 2 = Fin 0 \<or> getWeightRank g 2 = Forbidden
            \<or> getWeightRank g 2 = Permanent"
    unfolding g_def by code_simp
  have e: "findIndex g (Edge 1 2) = 2" unfolding g_def by code_simp
  have u: "(of_nat (length (filter (tracked g) (visits g))) :: 64 word) = 1"
    unfolding g_def by code_simp
  from init_skips_unweighted [OF rr r w, of example_kernelIcf example_kernelIcp] e u
  show ?thesis
    unfolding example_init_def g_def [symmetric] by auto
qed

text \<open>
  Claim C8. Let \<open>(u, v)\<close> be a pair the loop visits with \<open>u \<le> v\<close>, a non-zero rank \<open>r\<close> that
  no other such pair has, and a weight \<open>w_uv\<close> that is a number other than 0 and the
  sentinels; let the neighbour lists of \<open>u\<close> and \<open>v\<close> be ascending. Then
  \<^verbatim>\<open>initInducedCosts\<close> succeeds, the list \<open>ws\<close> of the set intersection holds exactly the
  common neighbours, each once, and
  \<^item> \<open>icf[r]\<close> is \<open>w_uv\<close> if \<open>w_uv \<ge> 0\<close> (else 0) plus the contributions of the kernel
    to \<open>icf\<close> over \<open>ws\<close>;
  \<^item> \<open>icp[r]\<close> is \<open>- w_uv\<close> if \<open>w_uv < 0\<close> (else 0) plus the contributions of the kernel
    to \<open>icp\<close> over \<open>ws\<close>;
  \<^item> \<open>unprocessed\<close> is the number of visits for which costs are computed, which is the
    number of such pairs when no neighbour list repeats a node.
\<close>

theorem init_induced_costs:
  assumes rr: "ranks_in_range g"
    and uv: "u < numNodes g" "v \<in> set (getNonZeroNeighbours g u)" "u \<le> v"
    and r: "r = findIndexId g (edgeId g (Edge u v))" "r \<noteq> 0"
    and w: "w_uv = getWeightRank g r" "w_uv \<noteq> Fin 0" "w_uv \<noteq> Forbidden"
           "w_uv \<noteq> Permanent" "w_uv \<noteq> NaN"
    and uq: "\<forall>p \<in> set (visits g). tracked g p \<longrightarrow> visit_rank g p = r \<longrightarrow> p = (u, v)"
    and asc: "sorted_wrt (<) (getNonZeroNeighbours g u)" "sorted_wrt (<) (getNonZeroNeighbours g v)"
    and ws: "ws = set_intersection (getNonZeroNeighbours g u) (getNonZeroNeighbours g v)"
  shows "\<exists>s'. initInducedCosts kernelIcf kernelIcp (EdgeHeap_ctor g) = Some s'
           \<and> set ws = set (getNonZeroNeighbours g u) \<inter> set (getNonZeroNeighbours g v)
           \<and> distinct ws
           \<and> icf s' ! r =
               foldl (\<lambda>a w. a + kernelIcf (getWeight g (Edge u w)) (getWeight g (Edge v w)))
                 (if Fin 0 \<le> w_uv then w_uv else Fin 0) ws
           \<and> icp s' ! r =
               foldl (\<lambda>a w. a + kernelIcp (getWeight g (Edge u w)) (getWeight g (Edge v w)))
                 (if w_uv < Fin 0 then - w_uv else Fin 0) ws
           \<and> unprocessed s' = of_nat (length (filter (tracked g) (visits g)))
           \<and> ((\<forall>a < numNodes g. distinct (getNonZeroNeighbours g a)) \<longrightarrow>
                 unprocessed s' = of_nat (card {p \<in> set (visits g). tracked g p}))"
proof -
  from init_total [OF rr] obtain s' where
    ok: "initInducedCosts kernelIcf kernelIcp (EdgeHeap_ctor g) = Some s'"
    by blast
  have vr: "visit_rank g (u, v) = r" by (simp add: visit_rank_def r(1))
  have mem: "(u, v) \<in> set (visits g)" using uv by (simp add: visits_mem)
  have tr: "tracked g (u, v)"
    using uv(3) r(2) w by (simp add: tracked_def vr plain_weight_def)
  note c = init_costs [OF ok]
  have vals: "icf s' ! r = edge_icf kernelIcf g u v w_uv \<and> icp s' ! r = edge_icp kernelIcp g u v w_uv"
    using c(3) [OF mem tr] w(1,5) uq by (simp add: vr)
  note si = set_intersection_sorted [OF asc]
  have dw: "distinct ws"
    using si unfolding ws by (simp add: strict_sorted_iff)
  have cnt: "unprocessed s' = of_nat (card {p \<in> set (visits g). tracked g p})"
    if d: "\<forall>a < numNodes g. distinct (getNonZeroNeighbours g a)"
  proof -
    have "distinct (visits g)"
      unfolding visits_def using d by (intro distinct_pairs) simp_all
    then have "distinct (filter (tracked g) (visits g))" by simp
    then have "card (set (filter (tracked g) (visits g))) = length (filter (tracked g) (visits g))"
      by (rule distinct_card)
    then show ?thesis using c(1) by simp
  qed
  show ?thesis
    using ok vals si dw c(1) cnt unfolding ws edge_icf_def edge_icp_def by blast
qed

theorem init_induced_costs_witness:
  "\<exists>s'. example_init 4 scenario_edges = Some s'
        \<and> icf s' ! 1 = Fin 3 \<and> icp s' ! 1 = Fin 1 \<and> unprocessed s' = 4"
proof -
  define g where "g = example_graph 4 scenario_edges"
  have rr: "ranks_in_range g" unfolding g_def by code_simp
  have uv: "0 < numNodes g" "1 \<in> set (getNonZeroNeighbours g 0)" "(0::nat) \<le> 1"
    unfolding g_def by code_simp+
  have r: "1 = findIndexId g (edgeId g (Edge 0 1))" "(1::nat) \<noteq> 0"
    unfolding g_def by code_simp+
  have w: "Fin 3 = getWeightRank g 1" "Fin 3 \<noteq> Fin 0" "Fin 3 \<noteq> Forbidden"
           "Fin 3 \<noteq> Permanent" "Fin 3 \<noteq> NaN"
    unfolding g_def by code_simp+
  have uq: "\<forall>p \<in> set (visits g). tracked g p \<longrightarrow> visit_rank g p = 1 \<longrightarrow> p = (0, 1)"
    unfolding g_def by code_simp
  have asc: "sorted_wrt (<) (getNonZeroNeighbours g 0)" "sorted_wrt (<) (getNonZeroNeighbours g 1)"
    unfolding g_def by code_simp+
  have ws: "[2] = set_intersection (getNonZeroNeighbours g 0) (getNonZeroNeighbours g 1)"
    unfolding g_def by code_simp
  have k: "example_kernelIcf (getWeight g (Edge 0 2)) (getWeight g (Edge 1 2)) = Fin 0"
    "example_kernelIcp (getWeight g (Edge 0 2)) (getWeight g (Edge 1 2)) = Fin 1"
    unfolding g_def by code_simp+
  have u: "(of_nat (length (filter (tracked g) (visits g))) :: 64 word) = 4"
    unfolding g_def by code_simp
  from init_induced_costs [OF rr uv r w uq asc ws, of example_kernelIcf example_kernelIcp]
  obtain s' where "initInducedCosts example_kernelIcf example_kernelIcp (EdgeHeap_ctor g) = Some s'"
    and "icf s' ! 1 = Fin 3" "icp s' ! 1 = Fin 1" "unprocessed s' = 4"
    using k u by (auto simp: less_eq_EdgeWeight_def)
  then show ?thesis
    unfolding example_init_def g_def [symmetric] by blast
qed

section \<open>Rank 0\<close>

text \<open>
  Claim C4, corrected. In every state that \<^verbatim>\<open>initInducedCosts\<close> and any sequence of
  \<^verbatim>\<open>increaseIcf\<close>, \<^verbatim>\<open>increaseIcp\<close>, \<^verbatim>\<open>removeEdge\<close> and \<^verbatim>\<open>mergeEdges\<close> calls that return
  produce, rank 0 has no cost value: \<open>icf[0]\<close> and \<open>icp[0]\<close> are the \<^verbatim>\<open>Forbidden\<close> sentinel.
  The other structures do hold an entry for it: rank 0 is its own bundle, whose member
  list holds rank 0 and nothing else; no other rank is assigned bundle 0, and rank 0 is
  in the member list of no other bundle; each of the two heap arrays holds every rank
  once, rank 0 among them.
\<close>

theorem rank0_placeholder:
  assumes "reachable kernelIcf kernelIcp g s"
  shows "icf s ! 0 = Forbidden \<and> icp s ! 0 = Forbidden
       \<and> edgeToBundle s ! 0 = 0 \<and> set (edgeBundles s ! 0) = {0}
       \<and> (\<forall>r. 0 < r \<and> r < length (icf s)
              \<longrightarrow> edgeToBundle s ! r \<noteq> 0 \<and> 0 \<notin> set (edgeBundles s ! r))
       \<and> 0 \<in> set (forb_rank2edge s) \<and> distinct (forb_rank2edge s)
       \<and> length (forb_rank2edge s) = length (icf s)
       \<and> 0 \<in> set (perm_rank2edge s) \<and> distinct (perm_rank2edge s)
       \<and> length (perm_rank2edge s) = length (icf s)"
proof -
  from assms have inv: "engine_inv s" by (rule reachable_inv)
  note i = engine_invD [OF inv]
  note b = bundles_okD [OF i(6)]
  have n: "0 < length (icf s)" using i by simp
  have tb0: "edgeToBundle s ! 0 = 0" using b(4) [OF n] by simp
  have mem: "set (edgeBundles s ! 0) = {0}"
  proof (rule set_eqI)
    fix t
    have "t \<in> set (edgeBundles s ! 0) \<longleftrightarrow> t < length (icf s) \<and> edgeToBundle s ! t = 0"
      using b(5) [OF n] by simp
    also have "\<dots> \<longleftrightarrow> t = 0" using b(4) n tb0 by auto
    finally show "t \<in> set (edgeBundles s ! 0) \<longleftrightarrow> t \<in> {0}" by simp
  qed
  have others: "\<forall>r. 0 < r \<and> r < length (icf s)
                  \<longrightarrow> edgeToBundle s ! r \<noteq> 0 \<and> 0 \<notin> set (edgeBundles s ! r)"
  proof (intro allI impI)
    fix r assume r: "0 < r \<and> r < length (icf s)"
    then have "edgeToBundle s ! r \<noteq> 0" using b(4) [of r] by simp
    moreover have "0 \<notin> set (edgeBundles s ! r)"
      using b(5) [of r 0] r tb0 by simp
    ultimately show "edgeToBundle s ! r \<noteq> 0 \<and> 0 \<notin> set (edgeBundles s ! r)" by simp
  qed
  note hf = heap_indexed_placeholder [OF i(4) n] heap_indexedD(1) [OF i(4)]
  note hp = heap_indexed_placeholder [OF i(5) n] heap_indexedD(1) [OF i(5)]
  show ?thesis using i tb0 mem others hf hp by simp
qed

text \<open>
  The theorem at the state reached on the path \<open>0 - 1 - 2 - 3\<close> by \<^verbatim>\<open>initInducedCosts\<close>
  followed by merging \<open>(2,3)\<close> into \<open>(1,2)\<close>.
\<close>

theorem rank0_placeholder_witness:
  "\<exists>s. then_mergeEdges (example_init 4 path_edges) (Edge 1 2) (Edge 2 3) = Some s
      \<and> icf s ! 0 = Forbidden \<and> icp s ! 0 = Forbidden
      \<and> edgeToBundle s ! 0 = 0 \<and> set (edgeBundles s ! 0) = {0}
      \<and> edgeToBundle s ! 3 \<noteq> 0 \<and> 0 \<notin> set (edgeBundles s ! 3)
      \<and> 0 \<in> set (forb_rank2edge s) \<and> distinct (forb_rank2edge s)
      \<and> 0 \<in> set (perm_rank2edge s) \<and> distinct (perm_rank2edge s)"
proof -
  define s0 where "s0 = the (example_init 4 path_edges)"
  have "example_init 4 path_edges \<noteq> None" by code_simp
  then have some0: "example_init 4 path_edges = Some s0" by (simp add: s0_def)
  define s where "s = the (mergeEdges s0 (Edge 1 2) (Edge 2 3))"
  have "mergeEdges s0 (Edge 1 2) (Edge 2 3) \<noteq> None" unfolding s0_def by code_simp
  then have some: "mergeEdges s0 (Edge 1 2) (Edge 2 3) = Some s" by (simp add: s_def)
  have len: "length (icf s) = 4" unfolding s_def s0_def by code_simp
  have "reachable example_kernelIcf example_kernelIcp (example_graph 4 path_edges) s0"
    using some0 unfolding example_init_def by (rule after_init)
  then have "reachable example_kernelIcf example_kernelIcp (example_graph 4 path_edges) s"
    using some by (rule after_mergeEdges)
  from rank0_placeholder [OF this] len
  have "icf s ! 0 = Forbidden \<and> icp s ! 0 = Forbidden
      \<and> edgeToBundle s ! 0 = 0 \<and> set (edgeBundles s ! 0) = {0}
      \<and> edgeToBundle s ! 3 \<noteq> 0 \<and> 0 \<notin> set (edgeBundles s ! 3)
      \<and> 0 \<in> set (forb_rank2edge s) \<and> distinct (forb_rank2edge s)
      \<and> 0 \<in> set (perm_rank2edge s) \<and> distinct (perm_rank2edge s)"
    by simp
  moreover have "then_mergeEdges (example_init 4 path_edges) (Edge 1 2) (Edge 2 3) = Some s"
    unfolding some0 then_mergeEdges_def using some by simp
  ultimately show ?thesis by blast
qed

text \<open>
  Claim C4 as stated fails: right after \<^verbatim>\<open>initInducedCosts\<close> on the path
  \<open>0 - 1 - 2 - 3\<close>, the bundle map has the entry \<open>0\<close> for rank 0, the member list of
  bundle 0 is \<open>[0]\<close>, and rank 0 sits in the last slot of both heap arrays (and slot 3 is
  what both index tables record for it).
\<close>

theorem rank0_in_bundles_and_heaps_counterexample:
  "map_option snapshot (example_init 4 path_edges) =
     Some (3, [InvalidEdge, Edge 0 1, Edge 1 2, Edge 2 3],
           [NInf, Fin 5, Fin 4, Fin 3], [NInf, Fin 0, Fin 0, Fin 0],
           [1, 2, 3, 0], [1, 2, 3, 0], [3, 0, 1, 2], [3, 0, 1, 2],
           [0, 1, 2, 3], [[0], [1], [2], [3]], [])"
  by code_simp

end
